theory Spec2Isabelle
  imports Complex_Main "HOL-Library.List_Lexorder" "HOL-Library.Word"
begin

section \<open>JavaScript values used by auditcounts.js\<close>

text \<open>
  A JavaScript string is a sequence of UTF-16 code units; it is modelled as the list of
  its code units, each a 16-bit word.  The relational operators on two strings compare code units
  lexicographically (a proper prefix is smaller), which is the order of
  \<^theory_text>\<open>HOL-Library.List_Lexorder\<close>.
\<close>

type_synonym jsstring = "16 word list"

definition js :: "string \<Rightarrow> jsstring" where
  "js s = map of_char s"

text \<open>
  A JavaScript number is an IEEE 754 double.  Finite doubles are modelled by their exact
  rational value; the two zeros are identified (the program cannot tell them apart:
  \<^verbatim>\<open>-0 === 0\<close>, \<^verbatim>\<open>-0 || 0\<close> is \<^verbatim>\<open>0\<close>).
\<close>

datatype jsnum = NaN | Fin rat | PInf | NInf

definition isNaN :: "jsnum \<Rightarrow> bool" where
  "isNaN x = (x = NaN)"

fun num_lt :: "jsnum \<Rightarrow> jsnum \<Rightarrow> bool" where
  "num_lt NaN y = False"
| "num_lt x NaN = False"
| "num_lt (Fin a) (Fin b) = (a < b)"
| "num_lt (Fin a) PInf = True"
| "num_lt (Fin a) NInf = False"
| "num_lt PInf y = False"
| "num_lt NInf NInf = False"
| "num_lt NInf y = True"

definition num_eq :: "jsnum \<Rightarrow> jsnum \<Rightarrow> bool" where
  "num_eq x y = (x \<noteq> NaN \<and> y \<noteq> NaN \<and> x = y)"

subsection \<open>Rounding a mathematical value to a double\<close>

function bits :: "int \<Rightarrow> int" where
  "bits n = (if n \<le> 0 then 0 else 1 + bits (n div 2))"
  by pat_completeness auto
termination
  by (relation "measure nat") auto

declare bits.simps [simp del]

definition pow2 :: "int \<Rightarrow> rat" where
  "pow2 e = (if 0 \<le> e then 2 ^ nat e else 1 / 2 ^ nat (- e))"

definition pow10 :: "int \<Rightarrow> rat" where
  "pow10 e = (if 0 \<le> e then 10 ^ nat e else 1 / 10 ^ nat (- e))"

text \<open>\<open>ilog2 q\<close> is the binary exponent of a positive rational: \<open>2 ^ e \<le> q < 2 ^ (e + 1)\<close>.\<close>

definition ilog2 :: "rat \<Rightarrow> int" where
  "ilog2 q = (let (n, d) = quotient_of q;
                  e0 = bits n - bits d
              in if pow2 e0 \<le> q then e0 else e0 - 1)"

definition round_even :: "rat \<Rightarrow> int" where
  "round_even q = (let f = \<lfloor>q\<rfloor>; r = q - of_int f
                   in if r < 1 / 2 then f
                      else if 1 / 2 < r then f + 1
                      else if even f then f else f + 1)"

text \<open>
  Round to nearest, ties to even, with a 53-bit significand, gradual underflow below
  \<open>2 ^ -1022\<close> and overflow to an infinity from \<open>2 ^ 1024 - 2 ^ 970\<close> on.
\<close>

definition to_double :: "rat \<Rightarrow> jsnum" where
  "to_double q =
     (if q = 0 then Fin 0
      else let a = \<bar>q\<bar>;
               e = max (ilog2 a) (- 1022);
               ulp = pow2 (e - 52);
               v = of_int (round_even (a / ulp)) * ulp
           in if pow2 1024 \<le> v then (if 0 < q then PInf else NInf)
              else Fin (if 0 < q then v else - v))"

subsection \<open>White space, \<^verbatim>\<open>trim\<close> and \<^verbatim>\<open>strsplit\<close>\<close>

text \<open>
  The code units that \<^verbatim>\<open>String.prototype.trim\<close>, the regular expression class
  \<^verbatim>\<open>\s\<close>, \<^verbatim>\<open>parseInt\<close> and the conversion of a string to a number treat as white space
  (WhiteSpace and LineTerminator of the language).
\<close>

definition is_ws :: "16 word \<Rightarrow> bool" where
  "is_ws c = (c \<in> {9, 10, 11, 12, 13, 32, 160, 5760, 8232, 8233, 8239, 8287, 12288, 65279}
              \<or> (8192 \<le> c \<and> c \<le> 8202))"

definition js_trim :: "jsstring \<Rightarrow> jsstring" where
  "js_trim s = rev (dropWhile is_ws (rev (dropWhile is_ws s)))"

text \<open>
  \<^verbatim>\<open>mod_strsplit(line, /\s+/, 2)\<close>: at most two fields, split at the first run of white
  space; the last field is the remainder of the string, later separators included.
\<close>

definition strsplit2 :: "jsstring \<Rightarrow> jsstring list" where
  "strsplit2 s =
     (let field1 = takeWhile (\<lambda>c. \<not> is_ws c) s;
          rest = dropWhile (\<lambda>c. \<not> is_ws c) s
      in if rest = [] then [s] else [field1, dropWhile is_ws rest])"

subsection \<open>\<^verbatim>\<open>parseInt(s, 10)\<close> and the conversion of a string to a number\<close>

definition is_digit :: "16 word \<Rightarrow> bool" where
  "is_digit c = (48 \<le> c \<and> c \<le> 57)"

definition digits_value :: "jsstring \<Rightarrow> int" where
  "digits_value ds = foldl (\<lambda>acc c. acc * 10 + (uint c - 48)) 0 ds"

text \<open>
  \<^verbatim>\<open>parseInt\<close> with radix 10: leading white space is skipped, one sign is taken, then the
  longest run of decimal digits is read and whatever follows is ignored; no digit at all
  gives \<^verbatim>\<open>NaN\<close>.
\<close>

definition parseInt :: "jsstring \<Rightarrow> jsnum" where
  "parseInt inputString =
     (let S = dropWhile is_ws inputString;
          neg = (S \<noteq> [] \<and> hd S = 45);
          S' = (if S \<noteq> [] \<and> (hd S = 43 \<or> hd S = 45) then tl S else S);
          Z = takeWhile is_digit S'
      in if Z = [] then NaN
         else to_double (if neg then - of_int (digits_value Z) else of_int (digits_value Z)))"

text \<open>
  The exponent part of a decimal literal: nothing, or \<^verbatim>\<open>e\<close>/\<^verbatim>\<open>E\<close>, an optional sign and
  at least one digit, up to the end of the string.
\<close>

definition exponent_part :: "jsstring \<Rightarrow> int option" where
  "exponent_part s =
     (case s of
        [] \<Rightarrow> Some 0
      | c # t \<Rightarrow>
          if c = 101 \<or> c = 69 then
            (let neg = (t \<noteq> [] \<and> hd t = 45);
                 ds = (if t \<noteq> [] \<and> (hd t = 43 \<or> hd t = 45) then tl t else t)
             in if ds \<noteq> [] \<and> list_all is_digit ds
                then Some (if neg then - digits_value ds else digits_value ds)
                else None)
          else None)"

text \<open>
  StrUnsignedDecimalLiteral without \<^verbatim>\<open>Infinity\<close>: digits, an optional fraction and an
  optional exponent, with at least one digit before or after the point.
\<close>

definition unsigned_decimal :: "jsstring \<Rightarrow> rat option" where
  "unsigned_decimal s =
     (let ip = takeWhile is_digit s;
          r1 = dropWhile is_digit s;
          dot = (r1 \<noteq> [] \<and> hd r1 = 46);
          fp = (if dot then takeWhile is_digit (tl r1) else []);
          r2 = (if dot then dropWhile is_digit (tl r1) else r1)
      in if ip = [] \<and> fp = [] then None
         else case exponent_part r2 of
                None \<Rightarrow> None
              | Some e \<Rightarrow> Some (of_int (digits_value (ip @ fp)) * pow10 (e - int (length fp))))"

definition digit_of :: "int \<Rightarrow> 16 word \<Rightarrow> int option" where
  "digit_of radix c =
     (let v = (if 48 \<le> c \<and> c \<le> 57 then uint c - 48
               else if 97 \<le> c \<and> c \<le> 102 then uint c - 87
               else if 65 \<le> c \<and> c \<le> 70 then uint c - 55
               else 16)
      in if v < radix then Some v else None)"

text \<open>NonDecimalIntegerLiteral: \<^verbatim>\<open>0x\<close>, \<^verbatim>\<open>0o\<close> or \<^verbatim>\<open>0b\<close> (either case) and at least one digit.\<close>

definition non_decimal :: "jsstring \<Rightarrow> int option" where
  "non_decimal s =
     (case s of
        z # p # ds \<Rightarrow>
          (let radix = (if p = 120 \<or> p = 88 then 16
                        else if p = 111 \<or> p = 79 then 8
                        else if p = 98 \<or> p = 66 then 2 else 0)
           in if z = 48 \<and> radix \<noteq> 0 \<and> ds \<noteq> [] \<and> list_all (\<lambda>c. digit_of radix c \<noteq> None) ds
              then Some (foldl (\<lambda>acc c. acc * radix + the (digit_of radix c)) 0 ds)
              else None)
      | _ \<Rightarrow> None)"

text \<open>
  The conversion the operators \<^verbatim>\<open>!=\<close> and \<^verbatim>\<open><\<close> apply to a string operand when the
  other operand is a number or \<^verbatim>\<open>null\<close>: the trimmed string is read as a
  StringNumericLiteral; the empty string is 0 and anything else is \<^verbatim>\<open>NaN\<close>.
\<close>

definition to_number :: "jsstring \<Rightarrow> jsnum" where
  "to_number s =
     (let t = js_trim s in
      if t = [] then Fin 0
      else if t = js ''Infinity'' \<or> t = js ''+Infinity'' then PInf
      else if t = js ''-Infinity'' then NInf
      else case non_decimal t of
             Some n \<Rightarrow> to_double (of_int n)
           | None \<Rightarrow>
               if hd t = 43 then
                 (case unsigned_decimal (tl t) of None \<Rightarrow> NaN | Some q \<Rightarrow> to_double q)
               else if hd t = 45 then
                 (case unsigned_decimal (tl t) of None \<Rightarrow> NaN | Some q \<Rightarrow> to_double (- q))
               else
                 (case unsigned_decimal t of None \<Rightarrow> NaN | Some q \<Rightarrow> to_double q))"

text \<open>
  \<^verbatim>\<open>a < b\<close> on operands that are strings or \<^verbatim>\<open>null\<close>: two strings are compared as
  strings; otherwise both operands become numbers (\<^verbatim>\<open>null\<close> is 0) and a \<^verbatim>\<open>NaN\<close> on
  either side makes the comparison false.
\<close>

definition js_lt :: "jsstring option \<Rightarrow> jsstring option \<Rightarrow> bool" where
  "js_lt a b =
     (case (a, b) of
        (Some x, Some y) \<Rightarrow> x < y
      | _ \<Rightarrow> num_lt (case a of None \<Rightarrow> Fin 0 | Some x \<Rightarrow> to_number x)
                     (case b of None \<Rightarrow> Fin 0 | Some y \<Rightarrow> to_number y))"

subsection \<open>\<^verbatim>\<open>JSON.parse\<close>\<close>

text \<open>
  Only the type of the parsed value matters to the program, so the values of numbers,
  arrays and objects are dropped; a string keeps its decoded value.
\<close>

datatype jsonval = JStr jsstring | JNum | JBool | JNull | JArr | JObj

definition json_ws :: "jsstring \<Rightarrow> jsstring" where
  "json_ws s = dropWhile (\<lambda>c. c \<in> {9, 10, 13, 32}) s"

definition json_escape :: "16 word \<Rightarrow> 16 word option" where
  "json_escape e =
     (if e = 34 \<or> e = 47 \<or> e = 92 then Some e
      else if e = 98 then Some 8
      else if e = 102 then Some 12
      else if e = 110 then Some 10
      else if e = 114 then Some 13
      else if e = 116 then Some 9
      else None)"

definition hex4 :: "jsstring \<Rightarrow> 16 word option" where
  "hex4 hs = (if list_all (\<lambda>c. digit_of 16 c \<noteq> None) hs
              then Some (word_of_int (foldl (\<lambda>acc c. acc * 16 + the (digit_of 16 c)) 0 hs))
              else None)"

text \<open>
  The characters of a JSON string after its opening quote: the decoded string and what
  follows the closing quote.
\<close>

fun json_chars :: "jsstring \<Rightarrow> (jsstring \<times> jsstring) option" where
  "json_chars [] = None"
| "json_chars (c # cs) =
     (if c = 34 then Some ([], cs)
      else if c = 92 then
        (case cs of
           [] \<Rightarrow> None
         | e # es \<Rightarrow>
             if e = 117 then
               (case es of
                  h1 # h2 # h3 # h4 # r \<Rightarrow>
                    (case hex4 [h1, h2, h3, h4] of
                       None \<Rightarrow> None
                     | Some u \<Rightarrow> map_option (\<lambda>(d, r'). (u # d, r')) (json_chars r))
                | _ \<Rightarrow> None)
             else
               (case json_escape e of
                  None \<Rightarrow> None
                | Some v \<Rightarrow> map_option (\<lambda>(d, r'). (v # d, r')) (json_chars es)))
      else if c < 32 then None
      else map_option (\<lambda>(d, r'). (c # d, r')) (json_chars cs))"

text \<open>A JSON number at the head of the input: what follows it.\<close>

definition json_number :: "jsstring \<Rightarrow> jsstring option" where
  "json_number s =
     (let s1 = (if s \<noteq> [] \<and> hd s = 45 then tl s else s);
          ip = takeWhile is_digit s1;
          r1 = dropWhile is_digit s1
      in if ip = [] \<or> (hd ip = 48 \<and> length ip \<noteq> 1) then None
         else
           (let dot = (r1 \<noteq> [] \<and> hd r1 = 46);
                fp = (if dot then takeWhile is_digit (tl r1) else []);
                r2 = (if dot then dropWhile is_digit (tl r1) else r1)
            in if dot \<and> fp = [] then None
               else if r2 \<noteq> [] \<and> (hd r2 = 101 \<or> hd r2 = 69) then
                 (let t = tl r2;
                      ds = (if t \<noteq> [] \<and> (hd t = 43 \<or> hd t = 45) then tl t else t)
                  in if takeWhile is_digit ds = [] then None
                     else Some (dropWhile is_digit ds))
               else Some r2))"

definition strip_prefix :: "jsstring \<Rightarrow> jsstring \<Rightarrow> jsstring option" where
  "strip_prefix p s = (if take (length p) s = p then Some (drop (length p) s) else None)"

text \<open>
  Recursive descent over the JSON grammar.  The first argument bounds the number of
  nested calls; \<open>JSON_parse\<close> starts with more than the text can use, since every call
  but the first follows a consumed character.
\<close>

fun json_value :: "nat \<Rightarrow> jsstring \<Rightarrow> (jsonval \<times> jsstring) option"
  and json_elements :: "nat \<Rightarrow> jsstring \<Rightarrow> jsstring option"
  and json_members :: "nat \<Rightarrow> jsstring \<Rightarrow> jsstring option"
where
  "json_value 0 s = None"
| "json_value (Suc n) s =
     (case json_ws s of
        [] \<Rightarrow> None
      | c # cs \<Rightarrow>
          if c = 34 then map_option (\<lambda>(d, r). (JStr d, r)) (json_chars cs)
          else if c = 91 then
            (if json_ws cs \<noteq> [] \<and> hd (json_ws cs) = 93 then Some (JArr, tl (json_ws cs))
             else map_option (Pair JArr) (json_elements n cs))
          else if c = 123 then
            (if json_ws cs \<noteq> [] \<and> hd (json_ws cs) = 125 then Some (JObj, tl (json_ws cs))
             else map_option (Pair JObj) (json_members n cs))
          else if strip_prefix (js ''true'') (c # cs) \<noteq> None
            then map_option (Pair JBool) (strip_prefix (js ''true'') (c # cs))
          else if strip_prefix (js ''false'') (c # cs) \<noteq> None
            then map_option (Pair JBool) (strip_prefix (js ''false'') (c # cs))
          else if strip_prefix (js ''null'') (c # cs) \<noteq> None
            then map_option (Pair JNull) (strip_prefix (js ''null'') (c # cs))
          else map_option (Pair JNum) (json_number (c # cs)))"
| "json_elements 0 s = None"
| "json_elements (Suc n) s =
     (case json_value n s of
        None \<Rightarrow> None
      | Some (v, r) \<Rightarrow>
          (case json_ws r of
             [] \<Rightarrow> None
           | c # r' \<Rightarrow>
               if c = 44 then json_elements n r'
               else if c = 93 then Some r'
               else None))"
| "json_members 0 s = None"
| "json_members (Suc n) s =
     (case json_ws s of
        [] \<Rightarrow> None
      | q # cs \<Rightarrow>
          if q \<noteq> 34 then None
          else
            (case json_chars cs of
               None \<Rightarrow> None
             | Some (k, r) \<Rightarrow>
                 (case json_ws r of
                    [] \<Rightarrow> None
                  | c # r1 \<Rightarrow>
                      if c \<noteq> 58 then None
                      else
                        (case json_value n r1 of
                           None \<Rightarrow> None
                         | Some (v, r2) \<Rightarrow>
                             (case json_ws r2 of
                                [] \<Rightarrow> None
                              | c' # r3 \<Rightarrow>
                                  if c' = 44 then json_members n r3
                                  else if c' = 125 then Some r3
                                  else None)))))"

text \<open>\<^verbatim>\<open>JSON.parse(text)\<close>: the value, or \<open>None\<close> where it throws a SyntaxError.\<close>

definition JSON_parse :: "jsstring \<Rightarrow> jsonval option" where
  "JSON_parse s =
     (case json_value (2 * length s + 2) s of
        None \<Rightarrow> None
      | Some (v, r) \<Rightarrow> if json_ws r = [] then Some v else None)"

definition is_string :: "jsonval \<Rightarrow> bool" where
  "is_string v = (case v of JStr d \<Rightarrow> True | _ \<Rightarrow> False)"

section \<open>SplitStream: the record parser\<close>

text \<open>
  A record is the array \<^verbatim>\<open>[ count, parts[1] ]\<close> that \<^verbatim>\<open>SplitStream\<close> pushes: the parsed count
  and the second field as written.
\<close>

type_synonym datum = "jsnum \<times> jsstring"

text \<open>
  \<^verbatim>\<open>parts[0].toString() != count\<close> compares a string with a number: the string is
  converted to a number and the two numbers are compared.
\<close>

definition str_neq_num :: "jsstring \<Rightarrow> jsnum \<Rightarrow> bool" where
  "str_neq_num s n = (\<not> num_eq (to_number s) n)"

text \<open>
  \<^verbatim>\<open>SplitStream.prototype._transform\<close>: \<open>Inl\<close> is the kind of the warning given to
  \<^verbatim>\<open>vsWarn\<close>, \<open>Inr\<close> the record pushed.
\<close>

definition SplitStream_transform :: "jsstring \<Rightarrow> string + datum" where
  "SplitStream_transform line0 =
     (let line = js_trim line0;
          parts = strsplit2 line
      in if length parts \<noteq> 2 then Inl ''line garbled''
         else
           (let count = parseInt (parts ! 0)
            in if isNaN count \<or> str_neq_num (parts ! 0) count then Inl ''not an integer''
               else
                 (case JSON_parse (parts ! 1) of
                    None \<Rightarrow> Inl ''invalid JSON''
                  | Some str \<Rightarrow>
                      if \<not> is_string str then Inl ''not a string''
                      else Inr (count, parts ! 1))))"

text \<open>
  One source of \<^verbatim>\<open>main\<close>: every line goes through the transform; a warning reaches
  \<^verbatim>\<open>streamWarn\<close>, which counts it, and the stream goes on with the next line.
\<close>

record splitstate =
  nwarnings :: nat
  pushed :: "datum list"

definition streamWarn :: "splitstate \<Rightarrow> splitstate" where
  "streamWarn st = st\<lparr>nwarnings := nwarnings st + 1\<rparr>"

definition split_line :: "splitstate \<Rightarrow> jsstring \<Rightarrow> splitstate" where
  "split_line st line =
     (case SplitStream_transform line of
        Inl kind \<Rightarrow> streamWarn st
      | Inr d \<Rightarrow> st\<lparr>pushed := pushed st @ [d]\<rparr>)"

definition split_lines :: "splitstate \<Rightarrow> jsstring list \<Rightarrow> splitstate" where
  "split_lines st lines = foldl split_line st lines"

section \<open>JoinStream: the merge engine\<close>

text \<open>
  An upstream \<^verbatim>\<open>SplitStream\<close> as the engine sees it: the records \<^verbatim>\<open>read()\<close> can return
  now, and those the stream has not produced yet.  \<^verbatim>\<open>read()\<close> returns \<^verbatim>\<open>null\<close> when
  nothing is buffered.
\<close>

record rstream =
  rs_buffer :: "datum list"
  rs_pending :: "datum list"

definition stream_read :: "rstream \<Rightarrow> datum option \<times> rstream" where
  "stream_read rs =
     (case rs_buffer rs of
        [] \<Rightarrow> (None, rs)
      | d # ds \<Rightarrow> (Some d, rs\<lparr>rs_buffer := ds\<rparr>))"

record source =
  src_stream :: rstream
  src_next :: "datum option"
  src_next_join :: "jsstring option"
  src_last_join :: "jsstring option"
  src_done :: bool

text \<open>
  A row is the array \<^verbatim>\<open>[ joinkey, value from stream 1, value from stream 2, ... ]\<close>, kept
  as the key and the list of the values.
\<close>

type_synonym row = "jsstring \<times> datum option list"

datatype error = AssertionError | OutOfOrder nat

text \<open>
  The engine with what it has done to the outside: the rows pushed downstream, how many
  times it pushed the end-of-stream marker \<^verbatim>\<open>null\<close>, and the error it emitted or the
  assertion that threw.  \<^verbatim>\<open>js_joinidx\<close> is 1 throughout (\<^verbatim>\<open>main\<close> passes it), so the
  join key of a record is its second component.
\<close>

record joinstream =
  js_waiting :: bool
  js_working :: bool
  js_sources :: "source list"
  js_pushed :: "row list"
  js_neof :: nat
  js_error :: "error option"

definition new_source :: "datum list \<Rightarrow> source" where
  "new_source input =
     \<lparr>src_stream = \<lparr>rs_buffer = [], rs_pending = input\<rparr>,
      src_next = None, src_next_join = None, src_last_join = None, src_done = False\<rparr>"

definition JoinStream :: "datum list list \<Rightarrow> joinstream" where
  "JoinStream inputs =
     \<lparr>js_waiting = False, js_working = False, js_sources = map new_source inputs,
      js_pushed = [], js_neof = 0, js_error = None\<rparr>"

text \<open>
  The first loop of \<^verbatim>\<open>kick\<close>, from source \<open>i\<close> on: the sources as the loop leaves them,
  \<^verbatim>\<open>blocked\<close>, and the index of the source whose record was out of order when the loop
  returned early.
\<close>

fun kick_read :: "nat \<Rightarrow> source list \<Rightarrow> bool \<Rightarrow> source list \<times> bool \<times> nat option" where
  "kick_read i [] blocked = ([], blocked, None)"
| "kick_read i (src # rest) blocked =
     (if src_next src \<noteq> None \<or> src_done src then
        (case kick_read (Suc i) rest blocked of (rest', b, e) \<Rightarrow> (src # rest', b, e))
      else
        (case stream_read (src_stream src) of
           (None, rs) \<Rightarrow>
             (case kick_read (Suc i) rest (blocked \<or> \<not> src_done src) of
                (rest', b, e) \<Rightarrow> (src\<lparr>src_stream := rs\<rparr> # rest', b, e))
         | (Some datum, rs) \<Rightarrow>
             (let src' = src\<lparr>src_stream := rs, src_next := Some datum,
                             src_next_join := Some (snd datum)\<rparr>
              in if js_lt (src_next_join src') (src_last_join src')
                 then (src' # rest, blocked, Some i)
                 else (case kick_read (Suc i) rest blocked of
                         (rest', b, e) \<Rightarrow> (src' # rest', b, e)))))"

text \<open>The second loop: the earliest join key among the buffered records.\<close>

fun kick_joinkey :: "source list \<Rightarrow> jsstring option \<Rightarrow> jsstring option" where
  "kick_joinkey [] joinkey = joinkey"
| "kick_joinkey (src # rest) joinkey =
     kick_joinkey rest
       (if src_next_join src \<noteq> None \<and> (joinkey = None \<or> js_lt (src_next_join src) joinkey)
        then src_next_join src else joinkey)"

text \<open>The third loop: the values of the row, and the sources with the joined records taken.\<close>

fun kick_output :: "jsstring \<Rightarrow> source list \<Rightarrow> datum option list \<times> source list" where
  "kick_output joinkey [] = ([], [])"
| "kick_output joinkey (src # rest) =
     (case kick_output joinkey rest of
        (output, rest') \<Rightarrow>
          if Some joinkey = src_next_join src
          then (src_next src # output,
                src\<lparr>src_last_join := src_next_join src, src_next_join := None,
                    src_next := None\<rparr> # rest')
          else (None # output, src # rest'))"

text \<open>
  What bounds the recursion of \<^verbatim>\<open>kick\<close>: reading moves a record from the stream's buffer
  to \<^verbatim>\<open>src_next\<close>, and every row takes at least one \<^verbatim>\<open>src_next_join\<close> away.
\<close>

definition src_weight :: "source \<Rightarrow> nat" where
  "src_weight s = 2 * length (rs_buffer (src_stream s))
                  + (if src_next s = None then 0 else 1)
                  + (if src_next_join s = None then 0 else 1)"

definition weight :: "source list \<Rightarrow> nat" where
  "weight srcs = sum_list (map src_weight srcs)"

lemma kick_read_weight:
  "kick_read i srcs b = (srcs', b', e) \<Longrightarrow> weight srcs' \<le> weight srcs"
proof (induction srcs arbitrary: i b srcs' b' e)
  case Nil
  then show ?case by (simp add: weight_def)
next
  case (Cons s rest)
  show ?case
    using Cons.prems
    by (auto simp: weight_def src_weight_def stream_read_def Let_def
             split: if_splits prod.splits option.splits list.splits
             dest!: Cons.IH [unfolded weight_def])
qed

lemma kick_joinkey_some:
  "kick_joinkey srcs jk = Some k \<Longrightarrow> jk = Some k \<or> (\<exists>s \<in> set srcs. src_next_join s = Some k)"
  by (induction srcs arbitrary: jk) (auto split: if_splits)

lemma kick_output_weight_le:
  "weight (snd (kick_output k srcs)) \<le> weight srcs"
  by (induction srcs) (auto simp: weight_def src_weight_def split: prod.splits)

lemma kick_output_weight:
  "\<exists>s \<in> set srcs. src_next_join s = Some k \<Longrightarrow> weight (snd (kick_output k srcs)) < weight srcs"
proof (induction srcs)
  case Nil
  then show ?case by simp
next
  case (Cons s rest)
  show ?case
  proof (cases "src_next_join s = Some k")
    case True
    have "weight (snd (kick_output k rest)) \<le> weight rest" by (rule kick_output_weight_le)
    with True show ?thesis
      by (auto simp: weight_def src_weight_def split: prod.splits)
  next
    case False
    with Cons.prems have "\<exists>s \<in> set rest. src_next_join s = Some k" by auto
    from Cons.IH[OF this] False show ?thesis
      by (auto simp: weight_def src_weight_def split: prod.splits)
  qed
qed

text \<open>
  \<^verbatim>\<open>JoinStream.prototype.kick\<close>.  \<open>push n\<close> is what \<^verbatim>\<open>this.push(output)\<close> returns for
  the row pushed when \<open>n\<close> rows went before it: whether the consumer wants more.  A failed
  assertion throws; the state then keeps \<open>AssertionError\<close>.  \<^verbatim>\<open>js_working\<close> is set only
  around the two calls of \<^verbatim>\<open>push\<close>, where it makes a nested \<^verbatim>\<open>_read\<close> return at once, and
  is false again whenever \<^verbatim>\<open>kick\<close> looks at it.
\<close>

function JoinStream_kick :: "(nat \<Rightarrow> bool) \<Rightarrow> joinstream \<Rightarrow> joinstream" where
  "JoinStream_kick push st =
     (if js_waiting st \<or> js_working st then st\<lparr>js_error := Some AssertionError\<rparr>
      else
        (case kick_read 0 (js_sources st) False of
           (srcs, blocked, Some i) \<Rightarrow>
             st\<lparr>js_sources := srcs, js_error := Some (OutOfOrder i)\<rparr>
         | (srcs, blocked, None) \<Rightarrow>
             if blocked then st\<lparr>js_sources := srcs, js_waiting := True\<rparr>
             else
               (case kick_joinkey srcs None of
                  None \<Rightarrow>
                    if length (filter (\<lambda>s. \<not> src_done s) srcs) \<noteq> 0
                    then st\<lparr>js_sources := srcs, js_error := Some AssertionError\<rparr>
                    else st\<lparr>js_sources := srcs, js_neof := Suc (js_neof st)\<rparr>
                | Some joinkey \<Rightarrow>
                    (case kick_output joinkey srcs of
                       (output, srcs') \<Rightarrow>
                         (let st' = st\<lparr>js_sources := srcs',
                                        js_pushed := js_pushed st @ [(joinkey, output)]\<rparr>;
                              keepgoing = push (length (js_pushed st))
                          in if keepgoing then JoinStream_kick push st' else st')))))"
  by pat_completeness auto
termination
proof (relation "measure (\<lambda>(push, st). weight (js_sources st))", goal_cases)
  case 1
  show ?case by simp
next
  case (2 push st srcs y blocked e joinkey outp srcs' st' keepgoing)
  from 2 have r: "kick_read 0 (js_sources st) False = (srcs, blocked, None)" by simp
  from 2 have k: "kick_joinkey srcs None = Some joinkey" by simp
  from 2 have o: "srcs' = snd (kick_output joinkey srcs)" by (metis snd_conv)
  from kick_joinkey_some[OF k] have "\<exists>s \<in> set srcs. src_next_join s = Some joinkey" by simp
  from kick_output_weight[OF this] o have "weight srcs' < weight srcs" by simp
  with kick_read_weight[OF r] 2 show ?case by simp
qed

declare JoinStream_kick.simps [simp del]

text \<open>\<^verbatim>\<open>JoinStream.prototype._read\<close> and \<^verbatim>\<open>JoinStream.prototype.kickIfWaiting\<close>.\<close>

definition JoinStream_read :: "(nat \<Rightarrow> bool) \<Rightarrow> joinstream \<Rightarrow> joinstream" where
  "JoinStream_read push st =
     (if js_working st \<or> js_waiting st then st else JoinStream_kick push st)"

definition kickIfWaiting :: "(nat \<Rightarrow> bool) \<Rightarrow> joinstream \<Rightarrow> joinstream" where
  "kickIfWaiting push st =
     (if \<not> js_waiting st then st else JoinStream_kick push (st\<lparr>js_waiting := False\<rparr>))"

text \<open>The two listeners the constructor puts on every source.\<close>

definition sourceReadable :: "(nat \<Rightarrow> bool) \<Rightarrow> joinstream \<Rightarrow> joinstream" where
  "sourceReadable push st = kickIfWaiting push st"

definition sourceEnded :: "(nat \<Rightarrow> bool) \<Rightarrow> nat \<Rightarrow> joinstream \<Rightarrow> joinstream" where
  "sourceEnded push i st =
     kickIfWaiting push
       (st\<lparr>js_sources := (js_sources st)[i := (js_sources st ! i)\<lparr>src_done := True\<rparr>]\<rparr>)"

text \<open>
  What happens around the engine.  The framework asks for data (\<^verbatim>\<open>_read\<close>), which it
  stops doing once the end-of-stream marker is pushed; source \<open>i\<close> makes \<open>n\<close> more
  records readable and emits \<^verbatim>\<open>readable\<close>; source \<open>i\<close> emits \<^verbatim>\<open>end\<close>, which a stream does
  only when all its data has been read.  The handler \<^verbatim>\<open>main\<close> puts on \<^verbatim>\<open>error\<close> exits the
  process, and so does a thrown assertion: after either nothing happens any more.
\<close>

datatype event = FrameworkRead | SourceReadable nat nat | SourceEnded nat

definition produce :: "nat \<Rightarrow> source \<Rightarrow> source" where
  "produce n src =
     src\<lparr>src_stream :=
           \<lparr>rs_buffer = rs_buffer (src_stream src) @ take n (rs_pending (src_stream src)),
            rs_pending = drop n (rs_pending (src_stream src))\<rparr>\<rparr>"

definition exhausted :: "source \<Rightarrow> bool" where
  "exhausted src = (rs_buffer (src_stream src) = [] \<and> rs_pending (src_stream src) = [])"

definition step :: "(nat \<Rightarrow> bool) \<Rightarrow> joinstream \<Rightarrow> event \<Rightarrow> joinstream" where
  "step push st ev =
     (if js_error st \<noteq> None then st
      else
        (case ev of
           FrameworkRead \<Rightarrow> if js_neof st \<noteq> 0 then st else JoinStream_read push st
         | SourceReadable i n \<Rightarrow>
             if i < length (js_sources st)
             then sourceReadable push
                    (st\<lparr>js_sources := (js_sources st)[i := produce n (js_sources st ! i)]\<rparr>)
             else st
         | SourceEnded i \<Rightarrow>
             if i < length (js_sources st) \<and> exhausted (js_sources st ! i)
             then sourceEnded push i st
             else st))"

definition run :: "(nat \<Rightarrow> bool) \<Rightarrow> joinstream \<Rightarrow> event list \<Rightarrow> joinstream" where
  "run push st evs = foldl (step push) st evs"

section \<open>AuditStream: the classifier\<close>

text \<open>
  What the classifier pushes for a row is the line
  \<^verbatim>\<open>JSON.stringify({ dirname, ndirents, nreported, status }) + '\n'\<close>: one JSON object
  with these four properties, in this order.  The line is kept as the values its text
  denotes.  \<^verbatim>\<open>JSON.stringify\<close> writes a string as a literal that reads back as the same
  string, and a finite number as a decimal text that reads back as the same number;
  for \<^verbatim>\<open>NaN\<close>, \<^verbatim>\<open>Infinity\<close> and \<^verbatim>\<open>-Infinity\<close> it writes \<^verbatim>\<open>null\<close>.
\<close>

datatype jsonnumber = JsonNull | JsonNumber rat

definition JSON_stringify_number :: "jsnum \<Rightarrow> jsonnumber" where
  "JSON_stringify_number x = (case x of Fin r \<Rightarrow> JsonNumber r | _ \<Rightarrow> JsonNull)"

record diagnostic =
  dirname :: jsstring
  ndirents :: jsonnumber
  nreported :: jsonnumber
  status :: string

text \<open>
  The operators of \<^verbatim>\<open>emitRow\<close> on a count that is a number or \<^verbatim>\<open>null\<close>:
  \<^verbatim>\<open>x === 0\<close>, \<^verbatim>\<open>a != b\<close> and \<^verbatim>\<open>x || 0\<close>.
\<close>

definition strict_eq0 :: "jsnum option \<Rightarrow> bool" where
  "strict_eq0 x = (x = Some (Fin 0))"

definition loose_neq :: "jsnum option \<Rightarrow> jsnum option \<Rightarrow> bool" where
  "loose_neq a b =
     (case (a, b) of
        (None, None) \<Rightarrow> False
      | (Some x, Some y) \<Rightarrow> \<not> num_eq x y
      | _ \<Rightarrow> True)"

definition or0 :: "jsnum option \<Rightarrow> jsnum" where
  "or0 x = (case x of None \<Rightarrow> Fin 0 | Some NaN \<Rightarrow> Fin 0 | Some v \<Rightarrow> v)"

text \<open>
  \<^verbatim>\<open>AuditStream.prototype.emitRowRaw\<close>: the line that is pushed, the object serialized by
  \<^verbatim>\<open>JSON.stringify\<close>.  Its four assertions on the types of the arguments hold by the
  types here.
\<close>

definition emitRowRaw :: "jsstring \<Rightarrow> jsnum \<Rightarrow> jsnum \<Rightarrow> string \<Rightarrow> diagnostic" where
  "emitRowRaw dname rawcount count message =
     \<lparr>dirname = dname, ndirents = JSON_stringify_number rawcount,
      nreported = JSON_stringify_number count, status = message\<rparr>"

text \<open>
  \<^verbatim>\<open>AuditStream.prototype.emitRow\<close>: \<open>Inr None\<close> where it returns without a row, \<open>Inl\<close>
  where one of its assertions throws.
\<close>

definition emitRow ::
  "bool \<Rightarrow> jsstring \<Rightarrow> jsnum option \<Rightarrow> jsnum option \<Rightarrow> error + diagnostic option" where
  "emitRow as_verbose dname rawcount count =
     (if count = None \<and> rawcount = None then Inl AssertionError
      else
        (let message = None;
             message =
               (if count = None then
                  (if strict_eq0 rawcount then Some ''warn: missing optimized count''
                   else Some ''error: count mismatch (no optimized count)'')
                else message);
             message =
               (if rawcount = None then
                  (if strict_eq0 count then Some ''warn: leaked optimized count''
                   else Some ''error: count mismatch (no entries)'')
                else message);
             message =
               (if message = None \<and> loose_neq count rawcount
                then Some ''error: count mismatch'' else message)
         in case message of
              None \<Rightarrow>
                if \<not> as_verbose then Inr None
                else Inr (Some (emitRowRaw dname (or0 rawcount) (or0 count) ''count okay''))
            | Some m \<Rightarrow> Inr (Some (emitRowRaw dname (or0 rawcount) (or0 count) m))))"

text \<open>\<^verbatim>\<open>AuditStream.prototype._transform\<close>: the row must be an array of three elements.\<close>

definition AuditStream_transform :: "bool \<Rightarrow> row \<Rightarrow> error + diagnostic option" where
  "AuditStream_transform as_verbose entry =
     (case entry of
        (key, slots) \<Rightarrow>
          if length slots + 1 \<noteq> 3 then Inl AssertionError
          else emitRow as_verbose key (map_option fst (slots ! 0)) (map_option fst (slots ! 1)))"

text \<open>The rows of a run through the classifier: what it pushed, and the assertion that stopped it.\<close>

fun AuditStream :: "bool \<Rightarrow> row list \<Rightarrow> diagnostic list \<times> error option" where
  "AuditStream as_verbose [] = ([], None)"
| "AuditStream as_verbose (entry # entries) =
     (case AuditStream_transform as_verbose entry of
        Inl e \<Rightarrow> ([], Some e)
      | Inr None \<Rightarrow> AuditStream as_verbose entries
      | Inr (Some d) \<Rightarrow>
          (case AuditStream as_verbose entries of (ds, e) \<Rightarrow> (d # ds, e)))"

section \<open>The pipeline of \<^verbatim>\<open>main\<close>\<close>

text \<open>Every input file, as its lines, goes through a \<^verbatim>\<open>SplitStream\<close> of its own.\<close>

definition parse_file :: "jsstring list \<Rightarrow> datum list" where
  "parse_file lines = pushed (split_lines \<lparr>nwarnings = 0, pushed = []\<rparr> lines)"

definition pipeline :: "jsstring list list \<Rightarrow> joinstream" where
  "pipeline files = JoinStream (map parse_file files)"

section \<open>Facts about the record parser\<close>

lemma split_line_cases:
  "(\<exists>kind. SplitStream_transform line = Inl kind \<and> split_line st line = st\<lparr>nwarnings := nwarnings st + 1\<rparr>)
   \<or> (\<exists>d. SplitStream_transform line = Inr d \<and> split_line st line = st\<lparr>pushed := pushed st @ [d]\<rparr>)"
  by (cases "SplitStream_transform line") (simp_all add: split_line_def streamWarn_def)

lemma split_lines_append:
  "split_lines st (xs @ ys) = split_lines (split_lines st xs) ys"
  by (simp add: split_lines_def)

lemma split_lines_pushed:
  "pushed (split_lines st lines) = pushed st @ pushed (split_lines \<lparr>nwarnings = 0, pushed = []\<rparr> lines)"
proof (induction lines arbitrary: st rule: rev_induct)
  case Nil
  then show ?case by (simp add: split_lines_def)
next
  case (snoc l ls)
  show ?case
    using snoc[of st]
    by (cases "SplitStream_transform l")
       (simp_all add: split_lines_def split_line_def streamWarn_def)
qed

lemma dropWhile_snoc_last:
  "\<not> P c \<Longrightarrow> dropWhile P (xs @ [c]) \<noteq> [] \<and> last (dropWhile P (xs @ [c])) = c"
  by (induction xs) auto

lemma js_trim_keeps_head:
  assumes "\<not> is_ws c"
  shows "\<exists>t. js_trim (c # cs) = c # t"
proof -
  have d: "dropWhile is_ws (c # cs) = c # cs" using assms by simp
  have "rev (c # cs) = rev cs @ [c]" by simp
  with dropWhile_snoc_last[of is_ws c "rev cs"] assms
  have ne: "dropWhile is_ws (rev (c # cs)) \<noteq> []"
    and l: "last (dropWhile is_ws (rev (c # cs))) = c" by simp_all
  from ne l have "hd (rev (dropWhile is_ws (rev (c # cs)))) = c"
    by (simp add: hd_rev)
  moreover from ne have "rev (dropWhile is_ws (rev (c # cs))) \<noteq> []" by simp
  ultimately show ?thesis
    unfolding js_trim_def d by (cases "rev (dropWhile is_ws (rev (c # cs)))") auto
qed

lemma quote_not_ws: "\<not> is_ws 34"
  by (simp add: is_ws_def)

lemma quote_not_digit: "\<not> is_digit 34"
  by (simp add: is_digit_def)

lemma to_number_quoted: "to_number (34 # cs) = NaN"
proof -
  obtain t where t: "js_trim (34 # cs) = 34 # t"
    using js_trim_keeps_head[OF quote_not_ws] by blast
  have nd: "non_decimal (34 # t) = None"
    by (cases t) (simp_all add: non_decimal_def)
  have ud: "unsigned_decimal (34 # t) = None"
    by (simp add: unsigned_decimal_def quote_not_digit)
  show ?thesis
    unfolding to_number_def t
    by (simp add: nd ud js_def)
qed

lemma strsplit2_second_no_ws:
  assumes "length (strsplit2 s) = 2"
  shows "strsplit2 s ! 1 = [] \<or> \<not> is_ws (hd (strsplit2 s ! 1))"
proof -
  from assms have "strsplit2 s ! 1 = dropWhile is_ws (dropWhile (\<lambda>c. \<not> is_ws c) s)"
    by (auto simp: strsplit2_def Let_def split: if_splits)
  then show ?thesis
    by (metis hd_dropWhile)
qed

lemma json_ws_is_ws: "c \<in> {9, 10, 13, 32} \<Longrightarrow> is_ws c"
  by (auto simp: is_ws_def)

lemma json_ws_id: "s = [] \<or> \<not> is_ws (hd s) \<Longrightarrow> json_ws s = s"
proof (cases s)
  case Nil
  then show ?thesis by (simp add: json_ws_def)
next
  case (Cons c cs)
  assume "s = [] \<or> \<not> is_ws (hd s)"
  with Cons have "\<not> is_ws c" by simp
  then have "c \<notin> {9, 10, 13, 32}" using json_ws_is_ws by blast
  with Cons show ?thesis by (simp add: json_ws_def)
qed

lemma JSON_parse_string_quote:
  assumes "JSON_parse s = Some v" and "is_string v" and "s = [] \<or> \<not> is_ws (hd s)"
  shows "\<exists>cs. s = 34 # cs"
proof -
  from assms(3) have w: "json_ws s = s" by (rule json_ws_id)
  from assms(1) obtain r where jv: "json_value (Suc (2 * length s + 1)) s = Some (v, r)"
    by (auto simp: JSON_parse_def split: option.splits prod.splits if_splits)
  from jv assms(2) w show ?thesis
    by (cases s) (auto simp: is_string_def split: if_splits)
qed

lemma SplitStream_record:
  assumes "SplitStream_transform line = Inr (c, k)"
  shows "c \<noteq> NaN \<and> to_number k = NaN"
proof -
  let ?parts = "strsplit2 (js_trim line)"
  from assms have len: "length ?parts = 2"
    by (auto simp: SplitStream_transform_def Let_def split: if_splits)
  from assms len have c: "c \<noteq> NaN" and k: "k = ?parts ! 1"
    and "\<exists>v. JSON_parse (?parts ! 1) = Some v \<and> is_string v"
    by (auto simp: SplitStream_transform_def Let_def isNaN_def split: if_splits option.splits)
  then obtain v where v: "JSON_parse k = Some v" "is_string v" by auto
  from strsplit2_second_no_ws[OF len] k have "k = [] \<or> \<not> is_ws (hd k)" by simp
  from JSON_parse_string_quote[OF v this] obtain cs where "k = 34 # cs" by blast
  with c show ?thesis by (simp add: to_number_quoted)
qed

section \<open>The merge engine against the full outer join of its inputs\<close>

definition opt_list :: "'a option \<Rightarrow> 'a list" where
  "opt_list x = (case x of None \<Rightarrow> [] | Some d \<Rightarrow> [d])"

definition remaining :: "source \<Rightarrow> datum list" where
  "remaining s = opt_list (src_next s) @ rs_buffer (src_stream s) @ rs_pending (src_stream s)"

definition joined :: "nat \<Rightarrow> row list \<Rightarrow> datum list" where
  "joined i rows = concat (map (\<lambda>row. opt_list (snd row ! i)) rows)"

definition src_inv :: "datum list \<Rightarrow> datum list \<Rightarrow> source \<Rightarrow> bool" where
  "src_inv inp jd s \<longleftrightarrow>
     jd @ remaining s = inp \<and>
     src_next_join s = map_option snd (src_next s) \<and>
     src_last_join s = (if jd = [] then None else Some (snd (last jd))) \<and>
     (src_done s \<longrightarrow> exhausted s)"

definition head_key :: "datum list \<Rightarrow> jsstring option" where
  "head_key xs = (case xs of [] \<Rightarrow> None | d # _ \<Rightarrow> Some (snd d))"

fun min_key :: "jsstring option list \<Rightarrow> jsstring option" where
  "min_key [] = None"
| "min_key (None # ks) = min_key ks"
| "min_key (Some k # ks) = (case min_key ks of None \<Rightarrow> Some k | Some m \<Rightarrow> Some (min k m))"

definition take_row :: "jsstring \<Rightarrow> datum list \<Rightarrow> datum option" where
  "take_row k xs = (case xs of [] \<Rightarrow> None | d # _ \<Rightarrow> if snd d = k then Some d else None)"

definition drop_row :: "jsstring \<Rightarrow> datum list \<Rightarrow> datum list" where
  "drop_row k xs = (case xs of [] \<Rightarrow> [] | d # t \<Rightarrow> if snd d = k then t else xs)"

lemma min_key_mem: "min_key ks = Some k \<Longrightarrow> Some k \<in> set ks"
proof (induction ks arbitrary: k rule: min_key.induct)
  case 1
  then show ?case by simp
next
  case (2 ks)
  then show ?case by simp
next
  case (3 k' ks)
  then show ?case
    by (auto split: option.splits simp: min_def split: if_splits)
qed

lemma drop_row_length: "length (drop_row k xs) \<le> length xs"
  by (cases xs) (simp_all add: drop_row_def)

lemma drop_row_shorter: "head_key xs = Some k \<Longrightarrow> length (drop_row k xs) < length xs"
  by (cases xs) (simp_all add: drop_row_def head_key_def)

lemma drop_rows_shorter:
  "Some k \<in> set (map head_key rs) \<Longrightarrow>
   sum_list (map length (map (drop_row k) rs)) < sum_list (map length rs)"
proof (induction rs)
  case Nil
  then show ?case by simp
next
  case (Cons xs rs)
  have le: "sum_list (map length (map (drop_row k) rs)) \<le> sum_list (map length rs)"
    by (induction rs) (simp_all add: add_mono drop_row_length)
  show ?case
  proof (cases "head_key xs = Some k")
    case True
    from drop_row_shorter[OF this] le show ?thesis by simp
  next
    case False
    with Cons.prems have "Some k \<in> set (map head_key rs)" by auto
    from Cons.IH[OF this] drop_row_length[of k xs] show ?thesis by simp
  qed
qed

function merge_rows :: "datum list list \<Rightarrow> row list" where
  "merge_rows rs =
     (case min_key (map head_key rs) of
        None \<Rightarrow> []
      | Some k \<Rightarrow> (k, map (take_row k) rs) # merge_rows (map (drop_row k) rs))"
  by pat_completeness auto
termination
proof (relation "measure (\<lambda>rs. sum_list (map length rs))", goal_cases)
  case 1
  show ?case by simp
next
  case (2 rs k)
  from min_key_mem[OF 2] drop_rows_shorter show ?case by simp
qed

declare merge_rows.simps [simp del]

text \<open>One turn of the first loop on one source.\<close>

definition pull :: "source \<Rightarrow> source" where
  "pull s =
     (if src_next s \<noteq> None \<or> src_done s then s
      else case rs_buffer (src_stream s) of
             [] \<Rightarrow> s
           | d # ds \<Rightarrow> s\<lparr>src_stream := (src_stream s)\<lparr>rs_buffer := ds\<rparr>, src_next := Some d,
                          src_next_join := Some (snd d)\<rparr>)"

lemma remaining_pull: "remaining (pull s) = remaining s"
  by (cases "src_next s") (auto simp: pull_def remaining_def opt_list_def split: list.splits)

lemma src_inv_pull: "src_inv inp jd s \<Longrightarrow> src_inv inp jd (pull s)"
  unfolding src_inv_def remaining_pull
  by (cases "src_next s") (auto simp: pull_def exhausted_def split: list.splits)

lemma kick_read_pull:
  "kick_read i srcs b = (srcs', b', e) \<Longrightarrow>
   length srcs' = length srcs \<and> (\<forall>j < length srcs. srcs' ! j = srcs ! j \<or> srcs' ! j = pull (srcs ! j))"
proof (induction srcs arbitrary: i b srcs' b' e)
  case Nil
  then show ?case by simp
next
  case (Cons s rest)
  have nth: "\<And>x xs y ys. length ys = length xs \<Longrightarrow> (y = x \<or> y = pull x) \<Longrightarrow>
      (\<forall>j < length xs. ys ! j = xs ! j \<or> ys ! j = pull (xs ! j)) \<Longrightarrow>
      (\<forall>j < length (x # xs). (y # ys) ! j = (x # xs) ! j \<or> (y # ys) ! j = pull ((x # xs) ! j))"
    by (simp add: nth_Cons split: nat.splits)
  show ?case
  proof (cases "src_next s \<noteq> None \<or> src_done s")
    case True
    then obtain rest' where r: "kick_read (Suc i) rest b = (rest', b', e)" and s': "srcs' = s # rest'"
      using Cons.prems by (auto split: prod.splits)
    from Cons.IH[OF r] s' show ?thesis using nth[of rest' rest s s] by simp
  next
    case False
    note F = this
    show ?thesis
    proof (cases "rs_buffer (src_stream s)")
      case Nil
      then have p: "pull s = s" by (simp add: pull_def)
      from Nil F obtain rest' where r: "kick_read (Suc i) rest (b \<or> \<not> src_done s) = (rest', b', e)"
        and s': "srcs' = s\<lparr>src_stream := src_stream s\<rparr> # rest'"
        using Cons.prems by (auto simp: stream_read_def split: prod.splits)
      from Cons.IH[OF r] s' show ?thesis using nth[of rest' rest s s] by simp
    next
      case (Cons d ds)
      let ?s' = "s\<lparr>src_stream := (src_stream s)\<lparr>rs_buffer := ds\<rparr>, src_next := Some d,
                          src_next_join := Some (snd d)\<rparr>"
      from Cons F have p: "pull s = ?s'" by (simp add: pull_def)
      show ?thesis
      proof (cases "js_lt (Some (snd d)) (src_last_join s)")
        case True
        with Cons F Cons.prems have "srcs' = ?s' # rest"
          by (auto simp: stream_read_def Let_def split: prod.splits)
        then show ?thesis using nth[of rest rest ?s' s] p by simp
      next
        case False
        with Cons F obtain rest' where r: "kick_read (Suc i) rest b = (rest', b', e)"
          and s': "srcs' = ?s' # rest'"
          using Cons.prems by (auto simp: stream_read_def Let_def split: prod.splits)
        from Cons.IH[OF r] s' show ?thesis using nth[of rest' rest ?s' s] p by simp
      qed
    qed
  qed
qed

definition pulls :: "source \<Rightarrow> datum option" where
  "pulls s =
     (if src_next s \<noteq> None \<or> src_done s then None
      else case rs_buffer (src_stream s) of [] \<Rightarrow> None | d # _ \<Rightarrow> Some d)"

definition starved :: "source \<Rightarrow> bool" where
  "starved s \<longleftrightarrow> src_next s = None \<and> \<not> src_done s \<and> rs_buffer (src_stream s) = []"

definition violates :: "source \<Rightarrow> bool" where
  "violates s \<longleftrightarrow> (\<exists>d. pulls s = Some d \<and> js_lt (Some (snd d)) (src_last_join s))"

lemma pull_id: "pulls s = None \<Longrightarrow> pull s = s"
  by (auto simp: pulls_def pull_def split: if_splits list.splits)

lemma kick_read_step_skip:
  "pulls s = None \<Longrightarrow>
   kick_read i (s # rest) b =
     (case kick_read (Suc i) rest (b \<or> starved s) of (rest', b', e) \<Rightarrow> (s # rest', b', e))"
  by (cases "src_next s")
     (auto simp: pulls_def starved_def stream_read_def split: if_splits list.splits prod.splits)

lemma kick_read_step_pull:
  "pulls s = Some d \<Longrightarrow>
   kick_read i (s # rest) b =
     (if js_lt (Some (snd d)) (src_last_join s) then (pull s # rest, b, Some i)
      else case kick_read (Suc i) rest b of (rest', b', e) \<Rightarrow> (pull s # rest', b', e))"
  by (cases "src_next s")
     (auto simp: pulls_def pull_def stream_read_def Let_def split: if_splits list.splits prod.splits)

lemma starved_pulls: "starved s \<Longrightarrow> pulls s = None"
  by (simp add: starved_def pulls_def)

lemma kick_read_None:
  "kick_read i srcs b = (srcs', b', None) \<Longrightarrow>
   srcs' = map pull srcs \<and> b' = (b \<or> (\<exists>s \<in> set srcs. starved s)) \<and> (\<forall>s \<in> set srcs. \<not> violates s)"
proof (induction srcs arbitrary: i b srcs' b')
  case Nil
  then show ?case by simp
next
  case (Cons s rest)
  show ?case
  proof (cases "pulls s")
    case None
    with Cons.prems obtain rest' where
      r: "kick_read (Suc i) rest (b \<or> starved s) = (rest', b', None)" and s': "srcs' = s # rest'"
      unfolding kick_read_step_skip[OF None] by (auto split: prod.splits)
    from Cons.IH[OF r] s' None show ?thesis
      by (auto simp: pull_id violates_def)
  next
    case (Some d)
    with Cons.prems have nv: "\<not> js_lt (Some (snd d)) (src_last_join s)"
      unfolding kick_read_step_pull[OF Some] by (auto split: if_splits)
    with Some Cons.prems obtain rest' where
      r: "kick_read (Suc i) rest b = (rest', b', None)" and s': "srcs' = pull s # rest'"
      unfolding kick_read_step_pull[OF Some] by (auto split: prod.splits)
    have ns: "\<not> starved s" using Some starved_pulls by fastforce
    from Cons.IH[OF r] s' Some nv ns show ?thesis
      by (auto simp: violates_def)
  qed
qed

lemma kick_read_Some:
  "kick_read i srcs b = (srcs', b', Some j) \<Longrightarrow>
   i \<le> j \<and> j - i < length srcs \<and> violates (srcs ! (j - i)) \<and>
   (\<forall>m < j - i. \<not> violates (srcs ! m)) \<and> srcs' ! (j - i) = pull (srcs ! (j - i))"
proof (induction srcs arbitrary: i b srcs' b')
  case Nil
  then show ?case by simp
next
  case (Cons s rest)
  show ?case
  proof (cases "pulls s")
    case None
    with Cons.prems obtain rest' where
      r: "kick_read (Suc i) rest (b \<or> starved s) = (rest', b', Some j)" and s': "srcs' = s # rest'"
      unfolding kick_read_step_skip[OF None] by (auto split: prod.splits)
    from Cons.IH[OF r] have ih: "Suc i \<le> j" "j - Suc i < length rest"
      "violates (rest ! (j - Suc i))" "\<forall>m < j - Suc i. \<not> violates (rest ! m)"
      "rest' ! (j - Suc i) = pull (rest ! (j - Suc i))" by auto
    from ih(1) have e: "j - i = Suc (j - Suc i)" by simp
    have nv: "\<not> violates s" using None by (simp add: violates_def)
    show ?thesis
      unfolding e using ih nv s' by (auto simp: nth_Cons split: nat.splits)
  next
    case (Some d)
    show ?thesis
    proof (cases "js_lt (Some (snd d)) (src_last_join s)")
      case True
      with Some Cons.prems have "j = i" and "srcs' = pull s # rest"
        unfolding kick_read_step_pull[OF Some] by simp_all
      with True Some show ?thesis by (simp add: violates_def)
    next
      case False
      with Some Cons.prems obtain rest' where
        r: "kick_read (Suc i) rest b = (rest', b', Some j)" and s': "srcs' = pull s # rest'"
        unfolding kick_read_step_pull[OF Some] by (auto split: prod.splits)
      from Cons.IH[OF r] have ih: "Suc i \<le> j" "j - Suc i < length rest"
        "violates (rest ! (j - Suc i))" "\<forall>m < j - Suc i. \<not> violates (rest ! m)"
        "rest' ! (j - Suc i) = pull (rest ! (j - Suc i))" by auto
      from ih(1) have e: "j - i = Suc (j - Suc i)" by simp
      have nv: "\<not> violates s" using Some False by (simp add: violates_def)
      show ?thesis
        unfolding e using ih nv s' by (auto simp: nth_Cons split: nat.splits)
    qed
  qed
qed

definition min_opt :: "jsstring option \<Rightarrow> jsstring option \<Rightarrow> jsstring option" where
  "min_opt a b =
     (case a of None \<Rightarrow> b | Some x \<Rightarrow> (case b of None \<Rightarrow> Some x | Some y \<Rightarrow> Some (min x y)))"

lemma js_lt_strings: "js_lt (Some x) (Some y) = (x < y)"
  by (simp add: js_lt_def)

lemma kick_joinkey_min:
  "kick_joinkey srcs acc = min_opt acc (min_key (map src_next_join srcs))"
proof (induction srcs arbitrary: acc)
  case Nil
  then show ?case by (cases acc) (simp_all add: min_opt_def)
next
  case (Cons s rest)
  show ?case
  proof (cases "src_next_join s")
    case None
    then show ?thesis by (simp add: Cons.IH)
  next
    case (Some k)
    show ?thesis
    proof (cases acc)
      case None
      with Some show ?thesis
        by (simp add: Cons.IH min_opt_def split: option.splits)
    next
      case (Some a)
      with \<open>src_next_join s = Some k\<close> show ?thesis
        by (auto simp: Cons.IH min_opt_def js_lt_strings min_def split: option.splits)
    qed
  qed
qed

lemma kick_output_map:
  "kick_output k srcs =
     (map (\<lambda>s. if Some k = src_next_join s then src_next s else None) srcs,
      map (\<lambda>s. if Some k = src_next_join s
                then s\<lparr>src_last_join := src_next_join s, src_next_join := None, src_next := None\<rparr>
                else s) srcs)"
  by (induction srcs) (auto split: prod.splits)

definition slot_of :: "jsstring \<Rightarrow> source \<Rightarrow> datum option" where
  "slot_of k s = (if Some k = src_next_join s then src_next s else None)"

definition consume :: "jsstring \<Rightarrow> source \<Rightarrow> source" where
  "consume k s =
     (if Some k = src_next_join s
      then s\<lparr>src_last_join := src_next_join s, src_next_join := None, src_next := None\<rparr>
      else s)"

lemma kick_output_eq: "kick_output k srcs = (map (slot_of k) srcs, map (consume k) srcs)"
  unfolding slot_of_def consume_def by (rule kick_output_map)

definition ready :: "source \<Rightarrow> bool" where
  "ready s \<longleftrightarrow> src_next s \<noteq> None \<or> src_done s"

definition data_inv :: "datum list list \<Rightarrow> source list \<Rightarrow> row list \<Rightarrow> bool" where
  "data_inv ins srcs rows \<longleftrightarrow>
     length srcs = length ins \<and>
     (\<forall>i < length ins. src_inv (ins ! i) (joined i rows) (srcs ! i)) \<and>
     rows @ merge_rows (map remaining srcs) = merge_rows ins"

lemma src_ready_head:
  assumes "src_inv inp jd s" and "ready s"
  shows "head_key (remaining s) = src_next_join s"
    and "take_row k (remaining s) = slot_of k s"
    and "remaining (consume k s) = drop_row k (remaining s)"
proof -
  from assms have nj: "src_next_join s = map_option snd (src_next s)"
    and ex: "src_next s = None \<Longrightarrow> exhausted s"
    by (auto simp: src_inv_def ready_def)
  show "head_key (remaining s) = src_next_join s"
    using nj ex by (cases "src_next s") (auto simp: remaining_def opt_list_def head_key_def exhausted_def)
  show "take_row k (remaining s) = slot_of k s"
    using nj ex by (cases "src_next s")
      (auto simp: remaining_def opt_list_def take_row_def slot_of_def exhausted_def)
  show "remaining (consume k s) = drop_row k (remaining s)"
    using nj ex by (cases "src_next s")
      (auto simp: remaining_def opt_list_def drop_row_def consume_def exhausted_def)
qed

lemma joined_snoc: "joined i (rows @ [(k, out)]) = joined i rows @ opt_list (out ! i)"
  by (simp add: joined_def)

lemma src_inv_consume:
  assumes "src_inv inp jd s"
  shows "src_inv inp (jd @ opt_list (slot_of k s)) (consume k s)"
proof (cases "Some k = src_next_join s")
  case False
  with assms show ?thesis by (simp add: slot_of_def consume_def opt_list_def)
next
  case True
  from assms have nj: "src_next_join s = map_option snd (src_next s)" by (simp add: src_inv_def)
  with True obtain d where d: "src_next s = Some d" "snd d = k" by (cases "src_next s") auto
  from assms d True show ?thesis
    by (auto simp: src_inv_def slot_of_def consume_def opt_list_def remaining_def exhausted_def)
qed

lemma data_inv_pull:
  assumes "data_inv ins srcs rows"
    and "length srcs' = length srcs"
    and "\<forall>j < length srcs. srcs' ! j = srcs ! j \<or> srcs' ! j = pull (srcs ! j)"
  shows "data_inv ins srcs' rows"
proof -
  have rem: "map remaining srcs' = map remaining srcs"
    using assms(2,3) by (intro nth_equalityI) (auto simp: remaining_pull)
  have "\<forall>i < length ins. src_inv (ins ! i) (joined i rows) (srcs' ! i)"
  proof (intro allI impI)
    fix i assume i: "i < length ins"
    with assms(1) have "src_inv (ins ! i) (joined i rows) (srcs ! i)" and "i < length srcs"
      by (auto simp: data_inv_def)
    with assms(3) show "src_inv (ins ! i) (joined i rows) (srcs' ! i)"
      using src_inv_pull by metis
  qed
  with assms(1,2) rem show ?thesis by (simp add: data_inv_def)
qed

lemma data_inv_set:
  assumes "data_inv ins srcs rows" and "s \<in> set srcs"
  shows "\<exists>inp jd. src_inv inp jd s"
proof -
  from assms(2) obtain i where "i < length srcs" "s = srcs ! i" by (auto simp: in_set_conv_nth)
  with assms(1) show ?thesis by (auto simp: data_inv_def)
qed

lemma data_inv_heads:
  assumes "data_inv ins srcs rows" and "\<forall>s \<in> set srcs. ready s"
  shows "map head_key (map remaining srcs) = map src_next_join srcs"
    and "map (take_row k) (map remaining srcs) = map (slot_of k) srcs"
    and "map remaining (map (consume k) srcs) = map (drop_row k) (map remaining srcs)"
proof -
  have each: "\<And>s. s \<in> set srcs \<Longrightarrow>
      head_key (remaining s) = src_next_join s \<and>
      take_row k (remaining s) = slot_of k s \<and>
      remaining (consume k s) = drop_row k (remaining s)"
  proof -
    fix s assume s: "s \<in> set srcs"
    from data_inv_set[OF assms(1) s] obtain inp jd where i: "src_inv inp jd s" by blast
    from assms(2) s have r: "ready s" by simp
    from src_ready_head[OF i r] show "head_key (remaining s) = src_next_join s \<and>
      take_row k (remaining s) = slot_of k s \<and>
      remaining (consume k s) = drop_row k (remaining s)" by simp
  qed
  show "map head_key (map remaining srcs) = map src_next_join srcs"
    using each by (simp add: comp_def)
  show "map (take_row k) (map remaining srcs) = map (slot_of k) srcs"
    using each by (simp add: comp_def)
  show "map remaining (map (consume k) srcs) = map (drop_row k) (map remaining srcs)"
    using each by (simp add: comp_def)
qed

lemma data_inv_emit:
  assumes inv: "data_inv ins srcs rows" and rdy: "\<forall>s \<in> set srcs. ready s"
    and k: "kick_joinkey srcs None = Some k"
  shows "data_inv ins (map (consume k) srcs) (rows @ [(k, map (slot_of k) srcs)])"
proof -
  from k have "min_key (map src_next_join srcs) = Some k"
    by (simp add: kick_joinkey_min min_opt_def)
  then have mk: "min_key (map head_key (map remaining srcs)) = Some k"
    unfolding data_inv_heads(1)[OF inv rdy] .
  have "merge_rows (map remaining srcs) =
          (k, map (slot_of k) srcs) # merge_rows (map remaining (map (consume k) srcs))"
    by (subst merge_rows.simps)
       (simp only: mk option.case data_inv_heads(2)[OF inv rdy] data_inv_heads(3)[OF inv rdy])
  with inv have m: "(rows @ [(k, map (slot_of k) srcs)]) @ merge_rows (map remaining (map (consume k) srcs))
      = merge_rows ins"
    by (simp add: data_inv_def)
  have "\<forall>i < length ins. src_inv (ins ! i) (joined i (rows @ [(k, map (slot_of k) srcs)]))
          (map (consume k) srcs ! i)"
    using inv by (auto simp: data_inv_def joined_snoc src_inv_consume)
  with inv m show ?thesis by (simp add: data_inv_def)
qed

lemma min_key_None: "min_key ks = None \<Longrightarrow> \<forall>x \<in> set ks. x = None"
  by (induction ks rule: min_key.induct) (auto split: option.splits)

lemma data_inv_finish:
  assumes inv: "data_inv ins srcs rows" and rdy: "\<forall>s \<in> set srcs. ready s"
    and k: "kick_joinkey srcs None = None"
  shows "\<forall>s \<in> set srcs. src_done s \<and> src_next s = None"
proof
  fix s assume s: "s \<in> set srcs"
  from k have "min_key (map src_next_join srcs) = None"
    by (simp add: kick_joinkey_min min_opt_def)
  then have "\<forall>x \<in> set (map src_next_join srcs). x = None"
    by (rule min_key_None)
  with s have nj: "src_next_join s = None" by simp
  from data_inv_set[OF inv s] nj have "src_next s = None" by (auto simp: src_inv_def)
  with rdy s show "src_done s \<and> src_next s = None" by (auto simp: ready_def)
qed

definition engine_inv :: "datum list list \<Rightarrow> joinstream \<Rightarrow> bool" where
  "engine_inv ins st \<longleftrightarrow>
     data_inv ins (js_sources st) (js_pushed st) \<and>
     \<not> js_working st \<and>
     js_error st \<noteq> Some AssertionError \<and>
     js_neof st \<le> 1 \<and>
     (js_neof st = 1 \<longrightarrow>
        \<not> js_waiting st \<and> js_error st = None \<and>
        (\<forall>s \<in> set (js_sources st). src_done s \<and> src_next s = None)) \<and>
     (\<forall>i. js_error st = Some (OutOfOrder i) \<longrightarrow>
        i < length (js_sources st) \<and>
        (\<exists>d. src_next (js_sources st ! i) = Some d \<and>
             js_lt (Some (snd d)) (src_last_join (js_sources st ! i))))"

lemma pull_pulls:
  "pulls s = Some d \<Longrightarrow> src_next (pull s) = Some d \<and> src_last_join (pull s) = src_last_join s"
  by (cases "src_next s") (auto simp: pulls_def pull_def split: if_splits list.splits)

lemma ready_pull: "\<not> starved s \<Longrightarrow> ready (pull s)"
  by (cases "src_next s")
     (auto simp: starved_def ready_def pull_def split: list.splits)

lemma kick_unfold:
  assumes "\<not> js_waiting st" and "\<not> js_working st"
    and "kick_read 0 (js_sources st) False = (srcs, blocked, e)"
  shows "JoinStream_kick push st =
     (case e of
        Some i \<Rightarrow> st\<lparr>js_sources := srcs, js_error := Some (OutOfOrder i)\<rparr>
      | None \<Rightarrow>
          if blocked then st\<lparr>js_sources := srcs, js_waiting := True\<rparr>
          else
            (case kick_joinkey srcs None of
               None \<Rightarrow>
                 if length (filter (\<lambda>s. \<not> src_done s) srcs) \<noteq> 0
                 then st\<lparr>js_sources := srcs, js_error := Some AssertionError\<rparr>
                 else st\<lparr>js_sources := srcs, js_neof := Suc (js_neof st)\<rparr>
             | Some k \<Rightarrow>
                 if push (length (js_pushed st))
                 then JoinStream_kick push
                        (st\<lparr>js_sources := map (consume k) srcs,
                            js_pushed := js_pushed st @ [(k, map (slot_of k) srcs)]\<rparr>)
                 else st\<lparr>js_sources := map (consume k) srcs,
                         js_pushed := js_pushed st @ [(k, map (slot_of k) srcs)]\<rparr>))"
  using assms
  by (subst JoinStream_kick.simps)
     (simp add: kick_output_eq Let_def split: option.splits)

lemma kick_inv:
  "engine_inv ins st \<Longrightarrow> \<not> js_waiting st \<Longrightarrow> js_error st = None \<Longrightarrow> js_neof st = 0 \<Longrightarrow>
   engine_inv ins (JoinStream_kick push st)"
proof (induction push st rule: JoinStream_kick.induct)
  case (1 push st)
  obtain srcs blocked e where r: "kick_read 0 (js_sources st) False = (srcs, blocked, e)"
    by (metis prod_cases3)
  from "1.prems" have nw: "\<not> js_waiting st" "\<not> js_working st"
    and di: "data_inv ins (js_sources st) (js_pushed st)"
    by (auto simp: engine_inv_def)
  note unf = kick_unfold[OF nw r, of push]
  from kick_read_pull[OF r] have di': "data_inv ins srcs (js_pushed st)"
    using data_inv_pull[OF di] by blast
  show ?case
  proof (cases e)
    case (Some i)
    from kick_read_Some[OF r[unfolded Some]]
    have i: "i < length (js_sources st)" and v: "violates (js_sources st ! i)"
      and p: "srcs ! i = pull (js_sources st ! i)" by simp_all
    from v obtain d where d: "pulls (js_sources st ! i) = Some d"
      "js_lt (Some (snd d)) (src_last_join (js_sources st ! i))" by (auto simp: violates_def)
    from pull_pulls[OF d(1)] d(2) p
    have "\<exists>d. src_next (srcs ! i) = Some d \<and> js_lt (Some (snd d)) (src_last_join (srcs ! i))"
      by auto
    moreover from i kick_read_pull[OF r] have "i < length srcs" by simp
    ultimately show ?thesis using unf di' "1.prems" Some by (simp add: engine_inv_def)
  next
    case None
    note eN = this
    show ?thesis
    proof (cases blocked)
      case True
      with unf eN di' "1.prems" show ?thesis by (simp add: engine_inv_def)
    next
      case False
      from kick_read_None[OF r[unfolded eN]] False
      have "srcs = map pull (js_sources st)" and "\<forall>s \<in> set (js_sources st). \<not> starved s"
        by auto
      then have rdy: "\<forall>s \<in> set srcs. ready s" by (auto simp: ready_pull)
      show ?thesis
      proof (cases "kick_joinkey srcs None")
        case None
        from data_inv_finish[OF di' rdy None]
        have fin: "\<forall>s \<in> set srcs. src_done s \<and> src_next s = None" .
        then have "filter (\<lambda>s. \<not> src_done s) srcs = []" by (simp add: filter_empty_conv)
        with unf eN False None di' fin "1.prems" show ?thesis
          by (simp add: engine_inv_def)
      next
        case (Some k)
        let ?st' = "st\<lparr>js_sources := map (consume k) srcs,
                        js_pushed := js_pushed st @ [(k, map (slot_of k) srcs)]\<rparr>"
        from data_inv_emit[OF di' rdy Some] "1.prems"
        have inv': "engine_inv ins ?st'" by (simp add: engine_inv_def)
        show ?thesis
        proof (cases "push (length (js_pushed st))")
          case False
          with unf eN \<open>\<not> blocked\<close> Some inv' show ?thesis by simp
        next
          case True
          have "engine_inv ins (JoinStream_kick push ?st')"
          proof (rule "1.IH"[where xb = ?st'])
            show "\<not> (js_waiting st \<or> js_working st)" using nw by simp
            show "(srcs, blocked, e) = kick_read 0 (js_sources st) False" using r by simp
            show "(blocked, e) = (blocked, e)" ..
            show "e = None" by (rule eN)
            show "\<not> blocked" by (rule \<open>\<not> blocked\<close>)
            show "kick_joinkey srcs None = Some k" by (rule Some)
            show "(map (slot_of k) srcs, map (consume k) srcs) = kick_output k srcs"
              by (simp add: kick_output_eq)
            show "?st' = st\<lparr>js_sources := map (consume k) srcs,
                        js_pushed := js_pushed st @ [(k, map (slot_of k) srcs)]\<rparr>" ..
            show "push (length (js_pushed st)) = push (length (js_pushed st))" ..
            show "push (length (js_pushed st))" by (rule True)
            show "engine_inv ins ?st'" by (rule inv')
            show "\<not> js_waiting ?st'" using nw by simp
            show "js_error ?st' = None" using "1.prems" by simp
            show "js_neof ?st' = 0" using "1.prems" by simp
          qed
          with unf eN \<open>\<not> blocked\<close> Some True show ?thesis by simp
        qed
      qed
    qed
  qed
qed

lemma remaining_produce: "remaining (produce n s) = remaining s"
  by (simp add: remaining_def produce_def)

lemma src_inv_produce: "src_inv inp jd s \<Longrightarrow> src_inv inp jd (produce n s)"
  by (auto simp: src_inv_def remaining_produce) (auto simp: produce_def exhausted_def)

lemma remaining_done: "remaining (s\<lparr>src_done := True\<rparr>) = remaining s"
  by (simp add: remaining_def)

lemma src_inv_done: "src_inv inp jd s \<Longrightarrow> exhausted s \<Longrightarrow> src_inv inp jd (s\<lparr>src_done := True\<rparr>)"
  by (auto simp: src_inv_def remaining_done) (auto simp: exhausted_def)

lemma data_inv_update:
  assumes "data_inv ins srcs rows" and "i < length srcs"
    and "remaining s' = remaining (srcs ! i)"
    and "\<And>inp jd. src_inv inp jd (srcs ! i) \<Longrightarrow> src_inv inp jd s'"
  shows "data_inv ins (srcs[i := s']) rows"
proof -
  have "map remaining (srcs[i := s']) = map remaining srcs"
    using assms(2,3) by (simp add: map_update list_update_same_conv)
  moreover have "\<forall>j < length ins. src_inv (ins ! j) (joined j rows) (srcs[i := s'] ! j)"
    using assms(1,2,4) by (auto simp: data_inv_def nth_list_update)
  ultimately show ?thesis using assms(1) by (simp add: data_inv_def)
qed

lemma set_update_all:
  "\<forall>s \<in> set xs. P s \<Longrightarrow> P y \<Longrightarrow> \<forall>s \<in> set (xs[i := y]). P s"
  using set_update_subset_insert[of xs i y] by blast

lemma engine_inv_sources:
  assumes "engine_inv ins st" and "js_error st = None"
    and "data_inv ins srcs (js_pushed st)"
    and "(\<forall>s \<in> set (js_sources st). src_done s \<and> src_next s = None) \<Longrightarrow>
         (\<forall>s \<in> set srcs. src_done s \<and> src_next s = None)"
  shows "engine_inv ins (st\<lparr>js_sources := srcs\<rparr>)"
  using assms unfolding engine_inv_def by simp

lemma kickIfWaiting_inv:
  assumes "engine_inv ins st" and "js_error st = None"
  shows "engine_inv ins (kickIfWaiting push st)"
proof (cases "js_waiting st")
  case False
  with assms show ?thesis by (simp add: kickIfWaiting_def)
next
  case True
  with assms have n0: "js_neof st = 0" by (auto simp: engine_inv_def)
  have "engine_inv ins (st\<lparr>js_waiting := False\<rparr>)"
    using assms n0 by (simp add: engine_inv_def)
  from kick_inv[OF this] assms n0 True show ?thesis by (simp add: kickIfWaiting_def)
qed

lemma step_inv:
  assumes "engine_inv ins st"
  shows "engine_inv ins (step push st ev)"
proof (cases "js_error st = None")
  case False
  with assms show ?thesis by (simp add: step_def)
next
  case True
  note e = this
  show ?thesis
  proof (cases ev)
    case FrameworkRead
    show ?thesis
    proof (cases "js_neof st \<noteq> 0 \<or> js_working st \<or> js_waiting st")
      case True
      with assms e FrameworkRead show ?thesis by (auto simp: step_def JoinStream_read_def)
    next
      case False
      with kick_inv[OF assms, of push] e FrameworkRead show ?thesis
        by (simp add: step_def JoinStream_read_def)
    qed
  next
    case (SourceReadable i n)
    show ?thesis
    proof (cases "i < length (js_sources st)")
      case False
      with assms e SourceReadable show ?thesis by (simp add: step_def)
    next
      case True
      let ?st1 = "st\<lparr>js_sources := (js_sources st)[i := produce n (js_sources st ! i)]\<rparr>"
      from assms have di: "data_inv ins (js_sources st) (js_pushed st)" by (simp add: engine_inv_def)
      have "data_inv ins ((js_sources st)[i := produce n (js_sources st ! i)]) (js_pushed st)"
        by (rule data_inv_update[OF di True]) (simp_all add: remaining_produce src_inv_produce)
      moreover have "\<forall>s \<in> set (js_sources st). src_done s \<and> src_next s = None \<Longrightarrow>
          \<forall>s \<in> set ((js_sources st)[i := produce n (js_sources st ! i)]). src_done s \<and> src_next s = None"
        using True by (intro set_update_all) (simp_all add: produce_def)
      ultimately have "engine_inv ins ?st1" by (intro engine_inv_sources[OF assms e])
      from kickIfWaiting_inv[OF this] e True SourceReadable show ?thesis
        by (simp add: step_def sourceReadable_def)
    qed
  next
    case (SourceEnded i)
    show ?thesis
    proof (cases "i < length (js_sources st) \<and> exhausted (js_sources st ! i)")
      case False
      with assms e SourceEnded show ?thesis by (auto simp: step_def)
    next
      case True
      let ?st1 = "st\<lparr>js_sources := (js_sources st)[i := (js_sources st ! i)\<lparr>src_done := True\<rparr>]\<rparr>"
      from assms have di: "data_inv ins (js_sources st) (js_pushed st)" by (simp add: engine_inv_def)
      have "data_inv ins ((js_sources st)[i := (js_sources st ! i)\<lparr>src_done := True\<rparr>]) (js_pushed st)"
        using True by (intro data_inv_update[OF di]) (simp_all add: remaining_done src_inv_done)
      moreover have "\<forall>s \<in> set (js_sources st). src_done s \<and> src_next s = None \<Longrightarrow>
          \<forall>s \<in> set ((js_sources st)[i := (js_sources st ! i)\<lparr>src_done := True\<rparr>]). src_done s \<and> src_next s = None"
        using True by (intro set_update_all) simp_all
      ultimately have "engine_inv ins ?st1" by (intro engine_inv_sources[OF assms e])
      from kickIfWaiting_inv[OF this] e True SourceEnded show ?thesis
        by (simp add: step_def sourceEnded_def)
    qed
  qed
qed

lemma remaining_new_source: "remaining (new_source inp) = inp"
  by (simp add: remaining_def new_source_def opt_list_def)

lemma init_inv: "engine_inv ins (JoinStream ins)"
proof -
  have "map remaining (map new_source ins) = ins"
    by (simp add: comp_def remaining_new_source)
  moreover have "\<forall>i < length ins. src_inv (ins ! i) (joined i []) (map new_source ins ! i)"
    by (simp add: src_inv_def joined_def remaining_new_source) (simp add: new_source_def)
  ultimately show ?thesis
    by (simp add: engine_inv_def data_inv_def JoinStream_def)
qed

lemma run_snoc: "run push st (evs @ [ev]) = step push (run push st evs) ev"
  by (simp add: run_def)

lemma run_inv: "engine_inv ins st \<Longrightarrow> engine_inv ins (run push st evs)"
  by (induction evs rule: rev_induct) (simp_all add: run_def step_inv)

subsection \<open>The full outer join of sorted inputs\<close>


lemma head_key_None: "head_key xs = None \<longleftrightarrow> xs = []"
  by (cases xs) (simp_all add: head_key_def)

lemma merge_rows_Nil:
  "min_key (map head_key rs) = None \<Longrightarrow> merge_rows rs = [] \<and> (\<forall>xs \<in> set rs. xs = [])"
proof -
  assume n: "min_key (map head_key rs) = None"
  from min_key_None[OF n] have "\<forall>xs \<in> set rs. xs = []" by (auto simp: head_key_None)
  with n show ?thesis by (subst merge_rows.simps) simp
qed

lemma merge_rows_Cons:
  "min_key (map head_key rs) = Some k \<Longrightarrow>
   merge_rows rs = (k, map (take_row k) rs) # merge_rows (map (drop_row k) rs)"
  by (subst merge_rows.simps) simp

lemma merge_rows_empty: "\<forall>xs \<in> set rs. xs = [] \<Longrightarrow> merge_rows rs = []"
proof -
  assume a: "\<forall>xs \<in> set rs. xs = []"
  have "min_key (map head_key rs) = None"
  proof (cases "min_key (map head_key rs)")
    case None then show ?thesis .
  next
    case (Some k)
    from min_key_mem[OF Some] a show ?thesis by (auto simp: head_key_def)
  qed
  then show ?thesis using merge_rows_Nil by blast
qed






subsection \<open>Sorted inputs raise no error\<close>

lemma split_lines_snoc:
  "split_lines st (ls @ [l]) = split_line (split_lines st ls) l"
  by (simp add: split_lines_def)

lemma parse_file_snoc:
  "parse_file (ls @ [l]) =
     (case SplitStream_transform l of Inl kind \<Rightarrow> parse_file ls | Inr d \<Rightarrow> parse_file ls @ [d])"
  by (cases "SplitStream_transform l")
     (simp_all add: parse_file_def split_lines_snoc split_line_def streamWarn_def)

lemma parse_file_records:
  "d \<in> set (parse_file lines) \<Longrightarrow> fst d \<noteq> NaN \<and> to_number (snd d) = NaN"
proof (induction lines rule: rev_induct)
  case Nil
  then show ?case by (simp add: parse_file_def split_lines_def)
next
  case (snoc l ls)
  show ?case
  proof (cases "SplitStream_transform l")
    case (Inl kind)
    with snoc show ?thesis by (simp add: parse_file_snoc)
  next
    case (Inr r)
    with snoc.prems have "d \<in> set (parse_file ls) \<or> d = r" by (auto simp: parse_file_snoc)
    then show ?thesis
    proof
      assume "d \<in> set (parse_file ls)" then show ?thesis by (rule snoc.IH)
    next
      assume "d = r"
      with Inr SplitStream_record[of l "fst r" "snd r"] show ?thesis by simp
    qed
  qed
qed

definition keys_ok :: "datum list list \<Rightarrow> bool" where
  "keys_ok ins \<longleftrightarrow> (\<forall>inp \<in> set ins. \<forall>d \<in> set inp. to_number (snd d) = NaN)"

lemma keys_ok_pipeline: "keys_ok (map parse_file files)"
  by (auto simp: keys_ok_def parse_file_records)

lemma js_lt_None: "to_number k = NaN \<Longrightarrow> \<not> js_lt (Some k) None"
  by (simp add: js_lt_def)

lemma pulls_remaining: "pulls s = Some d \<Longrightarrow> \<exists>rest. remaining s = d # rest"
  by (cases "src_next s")
     (auto simp: pulls_def remaining_def opt_list_def split: if_splits list.splits)

text \<open>The check of the first loop, read against the rows pushed so far.\<close>

lemma violates_iff:
  assumes "src_inv inp jd s" and "\<forall>d \<in> set inp. to_number (snd d) = NaN"
  shows "violates s \<longleftrightarrow> (\<exists>d. pulls s = Some d \<and> jd \<noteq> [] \<and> snd d < snd (last jd))"
proof -
  have "\<And>d. pulls s = Some d \<Longrightarrow>
      js_lt (Some (snd d)) (src_last_join s) = (jd \<noteq> [] \<and> snd d < snd (last jd))"
  proof -
    fix d assume p: "pulls s = Some d"
    from pulls_remaining[OF p] obtain rest where "remaining s = d # rest" by blast
    with assms(1) have "d \<in> set inp" by (auto simp: src_inv_def)
    with assms(2) have t: "to_number (snd d) = NaN" by simp
    from assms(1) have "src_last_join s = (if jd = [] then None else Some (snd (last jd)))"
      by (simp add: src_inv_def)
    with t show "js_lt (Some (snd d)) (src_last_join s) = (jd \<noteq> [] \<and> snd d < snd (last jd))"
      by (simp add: js_lt_None js_lt_strings)
  qed
  then show ?thesis by (auto simp: violates_def)
qed

lemma sorted_no_violation:
  assumes "src_inv inp jd s" and "\<forall>d \<in> set inp. to_number (snd d) = NaN"
    and "sorted (map snd inp)"
  shows "\<not> violates s"
proof
  assume "violates s"
  with violates_iff[OF assms(1,2)] obtain d where
    d: "pulls s = Some d" "jd \<noteq> []" "snd d < snd (last jd)" by blast
  from pulls_remaining[OF d(1)] obtain rest where "remaining s = d # rest" by blast
  with assms(1) have inp: "inp = jd @ d # rest" by (auto simp: src_inv_def)
  from d(2) have "last jd \<in> set jd" by simp
  with assms(3) inp have "snd (last jd) \<le> snd d"
    by (auto simp: sorted_append)
  with d(3) show False by simp
qed

definition sorted_inputs :: "datum list list \<Rightarrow> bool" where
  "sorted_inputs ins \<longleftrightarrow> (\<forall>inp \<in> set ins. sorted (map snd inp))"

lemma no_violation:
  assumes "data_inv ins srcs rows" and "keys_ok ins" and "sorted_inputs ins"
  shows "\<forall>s \<in> set srcs. \<not> violates s"
proof
  fix s assume "s \<in> set srcs"
  then obtain i where i: "i < length srcs" "s = srcs ! i" by (auto simp: in_set_conv_nth)
  with assms(1) have si: "src_inv (ins ! i) (joined i rows) s" and il: "i < length ins"
    by (auto simp: data_inv_def)
  from il assms(2,3) have "\<forall>d \<in> set (ins ! i). to_number (snd d) = NaN" "sorted (map snd (ins ! i))"
    by (auto simp: keys_ok_def sorted_inputs_def)
  with si show "\<not> violates s" using sorted_no_violation by blast
qed

lemma kick_read_no_error:
  assumes "\<forall>s \<in> set srcs. \<not> violates s"
  shows "snd (snd (kick_read i srcs b)) = None"
proof (cases "snd (snd (kick_read i srcs b))")
  case None
  then show ?thesis .
next
  case (Some j)
  then obtain srcs' b' where "kick_read i srcs b = (srcs', b', Some j)"
    by (metis prod.collapse)
  from kick_read_Some[OF this] assms show ?thesis by (metis nth_mem)
qed

lemma kick_no_error:
  "engine_inv ins st \<Longrightarrow> \<not> js_waiting st \<Longrightarrow> js_error st = None \<Longrightarrow> js_neof st = 0 \<Longrightarrow>
   keys_ok ins \<Longrightarrow> sorted_inputs ins \<Longrightarrow> js_error (JoinStream_kick push st) = None"
proof (induction push st rule: JoinStream_kick.induct)
  case (1 push st)
  obtain srcs blocked e where r: "kick_read 0 (js_sources st) False = (srcs, blocked, e)"
    by (metis prod_cases3)
  from "1.prems" have nw: "\<not> js_waiting st" "\<not> js_working st"
    and di: "data_inv ins (js_sources st) (js_pushed st)"
    by (auto simp: engine_inv_def)
  note unf = kick_unfold[OF nw r, of push]
  from kick_read_pull[OF r] have di': "data_inv ins srcs (js_pushed st)"
    using data_inv_pull[OF di] by blast
  from kick_read_no_error[OF no_violation[OF di "1.prems"(5,6)], of 0 False] r
  have eN: "e = None" by simp
  show ?case
  proof (cases blocked)
    case True
    with unf eN "1.prems" show ?thesis by simp
  next
    case False
    from kick_read_None[OF r[unfolded eN]] False
    have "srcs = map pull (js_sources st)" and "\<forall>s \<in> set (js_sources st). \<not> starved s"
      by auto
    then have rdy: "\<forall>s \<in> set srcs. ready s" by (auto simp: ready_pull)
    show ?thesis
    proof (cases "kick_joinkey srcs None")
      case None
      from data_inv_finish[OF di' rdy None]
      have "filter (\<lambda>s. \<not> src_done s) srcs = []" by (simp add: filter_empty_conv)
      with unf eN False None "1.prems" show ?thesis by simp
    next
      case (Some k)
      let ?st' = "st\<lparr>js_sources := map (consume k) srcs,
                      js_pushed := js_pushed st @ [(k, map (slot_of k) srcs)]\<rparr>"
      from data_inv_emit[OF di' rdy Some] "1.prems"
      have inv': "engine_inv ins ?st'" by (simp add: engine_inv_def)
      show ?thesis
      proof (cases "push (length (js_pushed st))")
        case False
        with unf eN \<open>\<not> blocked\<close> Some "1.prems" show ?thesis by simp
      next
        case True
        have "js_error (JoinStream_kick push ?st') = None"
        proof (rule "1.IH"[where xb = ?st'])
          show "\<not> (js_waiting st \<or> js_working st)" using nw by simp
          show "(srcs, blocked, e) = kick_read 0 (js_sources st) False" using r by simp
          show "(blocked, e) = (blocked, e)" ..
          show "e = None" by (rule eN)
          show "\<not> blocked" by (rule \<open>\<not> blocked\<close>)
          show "kick_joinkey srcs None = Some k" by (rule Some)
          show "(map (slot_of k) srcs, map (consume k) srcs) = kick_output k srcs"
            by (simp add: kick_output_eq)
          show "?st' = st\<lparr>js_sources := map (consume k) srcs,
                      js_pushed := js_pushed st @ [(k, map (slot_of k) srcs)]\<rparr>" ..
          show "push (length (js_pushed st)) = push (length (js_pushed st))" ..
          show "push (length (js_pushed st))" by (rule True)
          show "engine_inv ins ?st'" by (rule inv')
          show "\<not> js_waiting ?st'" using nw by simp
          show "js_error ?st' = None" using "1.prems" by simp
          show "js_neof ?st' = 0" using "1.prems" by simp
          show "keys_ok ins" by (rule "1.prems"(5))
          show "sorted_inputs ins" by (rule "1.prems"(6))
        qed
        with unf eN \<open>\<not> blocked\<close> Some True show ?thesis by simp
      qed
    qed
  qed
qed

subsection \<open>Runs of the pipeline\<close>

lemma produce_inv:
  assumes "engine_inv ins st" and "js_error st = None" and "i < length (js_sources st)"
  shows "engine_inv ins (st\<lparr>js_sources := (js_sources st)[i := produce n (js_sources st ! i)]\<rparr>)"
proof -
  from assms(1) have di: "data_inv ins (js_sources st) (js_pushed st)" by (simp add: engine_inv_def)
  have "data_inv ins ((js_sources st)[i := produce n (js_sources st ! i)]) (js_pushed st)"
    by (rule data_inv_update[OF di assms(3)]) (simp_all add: remaining_produce src_inv_produce)
  moreover have "\<forall>s \<in> set (js_sources st). src_done s \<and> src_next s = None \<Longrightarrow>
      \<forall>s \<in> set ((js_sources st)[i := produce n (js_sources st ! i)]). src_done s \<and> src_next s = None"
    using assms(3) by (intro set_update_all) (simp_all add: produce_def)
  ultimately show ?thesis by (intro engine_inv_sources[OF assms(1,2)])
qed

lemma ended_inv:
  assumes "engine_inv ins st" and "js_error st = None" and "i < length (js_sources st)"
    and "exhausted (js_sources st ! i)"
  shows "engine_inv ins (st\<lparr>js_sources := (js_sources st)[i := (js_sources st ! i)\<lparr>src_done := True\<rparr>]\<rparr>)"
proof -
  from assms(1) have di: "data_inv ins (js_sources st) (js_pushed st)" by (simp add: engine_inv_def)
  have "data_inv ins ((js_sources st)[i := (js_sources st ! i)\<lparr>src_done := True\<rparr>]) (js_pushed st)"
    using assms(3,4) by (intro data_inv_update[OF di]) (simp_all add: remaining_done src_inv_done)
  moreover have "\<forall>s \<in> set (js_sources st). src_done s \<and> src_next s = None \<Longrightarrow>
      \<forall>s \<in> set ((js_sources st)[i := (js_sources st ! i)\<lparr>src_done := True\<rparr>]). src_done s \<and> src_next s = None"
    using assms(3) by (intro set_update_all) simp_all
  ultimately show ?thesis by (intro engine_inv_sources[OF assms(1,2)])
qed

lemma kickIfWaiting_no_error:
  assumes "engine_inv ins st" and "js_error st = None" and "keys_ok ins" and "sorted_inputs ins"
  shows "js_error (kickIfWaiting push st) = None"
proof (cases "js_waiting st")
  case False
  with assms show ?thesis by (simp add: kickIfWaiting_def)
next
  case True
  with assms have n0: "js_neof st = 0" by (auto simp: engine_inv_def)
  have "engine_inv ins (st\<lparr>js_waiting := False\<rparr>)"
    using assms n0 by (simp add: engine_inv_def)
  from kick_no_error[OF this _ _ _ assms(3,4), of push] assms n0 True show ?thesis
    by (simp add: kickIfWaiting_def)
qed

lemma step_no_error:
  assumes "engine_inv ins st" and "js_error st = None" and "keys_ok ins" and "sorted_inputs ins"
  shows "js_error (step push st ev) = None"
proof (cases ev)
  case FrameworkRead
  show ?thesis
  proof (cases "js_neof st \<noteq> 0 \<or> js_working st \<or> js_waiting st")
    case True
    with assms FrameworkRead show ?thesis by (auto simp: step_def JoinStream_read_def)
  next
    case False
    with kick_no_error[OF assms(1) _ assms(2) _ assms(3,4), of push] assms(2) FrameworkRead
    show ?thesis by (simp add: step_def JoinStream_read_def)
  qed
next
  case (SourceReadable i n)
  show ?thesis
  proof (cases "i < length (js_sources st)")
    case False
    with assms SourceReadable show ?thesis by (simp add: step_def)
  next
    case True
    from kickIfWaiting_no_error[OF produce_inv[OF assms(1,2) True] _ assms(3,4), of n push]
      assms(2) True SourceReadable
    show ?thesis by (simp add: step_def sourceReadable_def)
  qed
next
  case (SourceEnded i)
  show ?thesis
  proof (cases "i < length (js_sources st) \<and> exhausted (js_sources st ! i)")
    case False
    with assms SourceEnded show ?thesis by (auto simp: step_def)
  next
    case True
    then have t: "i < length (js_sources st)" "exhausted (js_sources st ! i)" by simp_all
    from kickIfWaiting_no_error[OF ended_inv[OF assms(1,2) t] _ assms(3,4), of push]
      assms(2) True SourceEnded
    show ?thesis by (simp add: step_def sourceEnded_def)
  qed
qed

lemma run_no_error:
  assumes "engine_inv ins st" and "js_error st = None" and "keys_ok ins" and "sorted_inputs ins"
  shows "js_error (run push st evs) = None"
proof (induction evs rule: rev_induct)
  case Nil
  with assms show ?case by (simp add: run_def)
next
  case (snoc ev evs)
  from step_no_error[OF run_inv[OF assms(1)] snoc assms(3,4)] show ?case
    by (simp add: run_snoc)
qed

lemma pipeline_inv: "engine_inv (map parse_file files) (run push (pipeline files) evs)"
  unfolding pipeline_def by (rule run_inv[OF init_inv])

lemma finished_remaining:
  assumes "engine_inv ins st" and "js_neof st = 1"
  shows "\<forall>s \<in> set (js_sources st). remaining s = []"
proof
  fix s assume s: "s \<in> set (js_sources st)"
  from assms have di: "data_inv ins (js_sources st) (js_pushed st)"
    and d: "src_done s" "src_next s = None" using s by (auto simp: engine_inv_def)
  from data_inv_set[OF di s] d(1) have "exhausted s" by (auto simp: src_inv_def)
  with d(2) show "remaining s = []" by (simp add: remaining_def exhausted_def opt_list_def)
qed

lemma finished_pushed:
  assumes "engine_inv ins st" and "js_neof st = 1"
  shows "js_pushed st = merge_rows ins"
proof -
  from finished_remaining[OF assms] have "merge_rows (map remaining (js_sources st)) = []"
    by (intro merge_rows_empty) simp
  with assms(1) show ?thesis by (simp add: engine_inv_def data_inv_def)
qed

lemma finished_joined:
  assumes "engine_inv ins st" and "js_neof st = 1" and "i < length ins"
  shows "joined i (js_pushed st) = ins ! i"
proof -
  from assms(1,3) have "src_inv (ins ! i) (joined i (js_pushed st)) (js_sources st ! i)"
    and "js_sources st ! i \<in> set (js_sources st)"
    by (auto simp: engine_inv_def data_inv_def)
  with finished_remaining[OF assms(1,2)] show ?thesis by (simp add: src_inv_def)
qed

lemma pushed_prefix:
  assumes "engine_inv ins st"
  shows "\<exists>rest. merge_rows ins = js_pushed st @ rest"
  using assms by (auto simp: engine_inv_def data_inv_def dest: sym)

subsection \<open>The example of two input files\<close>

lemma parse_file_Nil: "parse_file [] = []"
  by (simp add: parse_file_def split_lines_def)

lemma parse_file_Cons:
  "parse_file (l # ls) =
     (case SplitStream_transform l of Inl kind \<Rightarrow> parse_file ls | Inr d \<Rightarrow> d # parse_file ls)"
proof -
  have "pushed (split_lines (split_line \<lparr>nwarnings = 0, pushed = []\<rparr> l) ls) =
        pushed (split_line \<lparr>nwarnings = 0, pushed = []\<rparr> l) @ parse_file ls"
    unfolding parse_file_def by (rule split_lines_pushed)
  then show ?thesis
    by (cases "SplitStream_transform l")
       (simp_all add: parse_file_def split_lines_def split_line_def streamWarn_def)
qed

lemma line_3a: \<open>SplitStream_transform (js ''3 "a"'') = Inr (Fin 3, js ''"a"'')\<close>
  by code_simp

lemma line_5b: \<open>SplitStream_transform (js ''5 "b"'') = Inr (Fin 5, js ''"b"'')\<close>
  by code_simp

lemma line_2c: \<open>SplitStream_transform (js ''2 "c"'') = Inr (Fin 2, js ''"c"'')\<close>
  by code_simp

lemma line_0b: \<open>SplitStream_transform (js ''0 "b"'') = Inr (Fin 0, js ''"b"'')\<close>
  by code_simp

lemma line_7d: \<open>SplitStream_transform (js ''7 "d"'') = Inr (Fin 7, js ''"d"'')\<close>
  by code_simp

lemmas example_lines = line_3a line_5b line_2c line_0b line_7d

definition example_A :: "jsstring list" where
  \<open>example_A = [js ''3 "a"'', js ''5 "b"'', js ''2 "c"'']\<close>

definition example_B :: "jsstring list" where
  \<open>example_B = [js ''3 "a"'', js ''0 "b"'', js ''7 "d"'']\<close>

definition example_events :: "event list" where
  "example_events =
     [SourceReadable 0 3, SourceReadable 1 3, FrameworkRead,
      SourceEnded 0, SourceEnded 1, SourceEnded 0, SourceEnded 1]"

lemma example_parse:
  \<open>parse_file example_A = [(Fin 3, js ''"a"''), (Fin 5, js ''"b"''), (Fin 2, js ''"c"'')]\<close>
  \<open>parse_file example_B = [(Fin 3, js ''"a"''), (Fin 0, js ''"b"''), (Fin 7, js ''"d"'')]\<close>
  by (simp_all add: example_A_def example_B_def parse_file_Cons parse_file_Nil example_lines)

lemma example_pipeline:
  \<open>pipeline [example_A, example_B] =
     JoinStream [[(Fin 3, js ''"a"''), (Fin 5, js ''"b"''), (Fin 2, js ''"c"'')],
                 [(Fin 3, js ''"a"''), (Fin 0, js ''"b"''), (Fin 7, js ''"d"'')]]\<close>
  by (simp add: pipeline_def example_parse)

lemma example_run:
  \<open>run (\<lambda>n. True) (pipeline [example_A, example_B]) example_events =
     \<lparr>js_waiting = False, js_working = False,
      js_sources =
        [\<lparr>src_stream = \<lparr>rs_buffer = [], rs_pending = []\<rparr>, src_next = None,
          src_next_join = None, src_last_join = Some (js ''"c"''), src_done = True\<rparr>,
         \<lparr>src_stream = \<lparr>rs_buffer = [], rs_pending = []\<rparr>, src_next = None,
          src_next_join = None, src_last_join = Some (js ''"d"''), src_done = True\<rparr>],
      js_pushed =
        [(js ''"a"'', [Some (Fin 3, js ''"a"''), Some (Fin 3, js ''"a"'')]),
         (js ''"b"'', [Some (Fin 5, js ''"b"''), Some (Fin 0, js ''"b"'')]),
         (js ''"c"'', [Some (Fin 2, js ''"c"''), None]),
         (js ''"d"'', [None, Some (Fin 7, js ''"d"'')])],
      js_neof = 1, js_error = None\<rparr>\<close>
  unfolding example_pipeline by code_simp

subsection \<open>Every run can be brought to its end\<close>

text \<open>
  What is left to do: the records not yet joined, the records a stream has not made
  readable yet, and the sources that have not ended.
\<close>

definition src_mu :: "source \<Rightarrow> nat" where
  "src_mu s = length (remaining s) + length (rs_pending (src_stream s))
              + (if src_done s then 0 else 1)"

definition mu :: "joinstream \<Rightarrow> nat" where
  "mu st = sum_list (map src_mu (js_sources st))"

lemma src_mu_pull: "src_mu (pull s) = src_mu s"
  unfolding src_mu_def remaining_pull
  by (cases "src_next s") (auto simp: pull_def split: list.splits)

lemma src_mu_consume_le: "src_mu (consume k s) \<le> src_mu s"
  by (cases "src_next s") (auto simp: src_mu_def consume_def remaining_def opt_list_def)

lemma src_mu_consume_less:
  "src_next_join s = Some k \<Longrightarrow> src_next s \<noteq> None \<Longrightarrow> src_mu (consume k s) < src_mu s"
  by (cases "src_next s") (auto simp: src_mu_def consume_def remaining_def opt_list_def)

lemma sum_mu_consume_le:
  "sum_list (map src_mu (map (consume k) srcs)) \<le> sum_list (map src_mu srcs)"
  by (induction srcs) (simp_all add: add_mono src_mu_consume_le)

lemma sum_mu_consume_less:
  assumes "\<exists>s \<in> set srcs. src_next_join s = Some k \<and> src_next s \<noteq> None"
  shows "sum_list (map src_mu (map (consume k) srcs)) < sum_list (map src_mu srcs)"
  using assms
proof (induction srcs)
  case Nil
  then show ?case by simp
next
  case (Cons s rest)
  show ?case
  proof (cases "src_next_join s = Some k \<and> src_next s \<noteq> None")
    case True
    with src_mu_consume_less[of s k] sum_mu_consume_le[of k rest] show ?thesis by simp
  next
    case False
    with Cons.prems have "\<exists>s \<in> set rest. src_next_join s = Some k \<and> src_next s \<noteq> None" by auto
    from Cons.IH[OF this] src_mu_consume_le[of k s] show ?thesis by simp
  qed
qed

lemma kick_read_mu:
  assumes "kick_read i srcs b = (srcs', b', e)"
  shows "sum_list (map src_mu srcs') = sum_list (map src_mu srcs)"
proof -
  from kick_read_pull[OF assms] have "map src_mu srcs' = map src_mu srcs"
    by (intro nth_equalityI) (auto simp: src_mu_pull)
  then show ?thesis by simp
qed

lemma kick_mu: "mu (JoinStream_kick push st) \<le> mu st"
proof (induction push st rule: JoinStream_kick.induct)
  case (1 push st)
  show ?case
  proof (cases "js_waiting st \<or> js_working st")
    case True
    then show ?thesis by (subst JoinStream_kick.simps) (simp add: mu_def)
  next
    case False
    then have nw: "\<not> js_waiting st" "\<not> js_working st" by simp_all
    obtain srcs blocked e where r: "kick_read 0 (js_sources st) False = (srcs, blocked, e)"
      by (metis prod_cases3)
    note unf = kick_unfold[OF nw r, of push]
    note m = kick_read_mu[OF r]
    show ?thesis
    proof (cases e)
      case (Some i)
      with unf m show ?thesis by (simp add: mu_def)
    next
      case None
      note eN = this
      show ?thesis
      proof (cases blocked)
        case True
        with unf eN m show ?thesis by (simp add: mu_def)
      next
        case False
        show ?thesis
        proof (cases "kick_joinkey srcs None")
          case None
          with unf eN False m show ?thesis by (simp add: mu_def)
        next
          case (Some k)
          let ?st' = "st\<lparr>js_sources := map (consume k) srcs,
                          js_pushed := js_pushed st @ [(k, map (slot_of k) srcs)]\<rparr>"
          have le: "mu ?st' \<le> mu st"
            using sum_mu_consume_le[of k srcs] m by (simp add: mu_def)
          show ?thesis
          proof (cases "push (length (js_pushed st))")
            case False
            with unf eN \<open>\<not> blocked\<close> Some le show ?thesis by simp
          next
            case True
            have "mu (JoinStream_kick push ?st') \<le> mu ?st'"
            proof (rule "1.IH"[where xb = ?st'])
              show "\<not> (js_waiting st \<or> js_working st)" using nw by simp
              show "(srcs, blocked, e) = kick_read 0 (js_sources st) False" using r by simp
              show "(blocked, e) = (blocked, e)" ..
              show "e = None" by (rule eN)
              show "\<not> blocked" by (rule \<open>\<not> blocked\<close>)
              show "kick_joinkey srcs None = Some k" by (rule Some)
              show "(map (slot_of k) srcs, map (consume k) srcs) = kick_output k srcs"
                by (simp add: kick_output_eq)
              show "?st' = st\<lparr>js_sources := map (consume k) srcs,
                          js_pushed := js_pushed st @ [(k, map (slot_of k) srcs)]\<rparr>" ..
              show "push (length (js_pushed st)) = push (length (js_pushed st))" ..
              show "push (length (js_pushed st))" by (rule True)
            qed
            with unf eN \<open>\<not> blocked\<close> Some True le show ?thesis by simp
          qed
        qed
      qed
    qed
  qed
qed

lemma kick_progress:
  assumes inv: "engine_inv ins st" and nw: "\<not> js_waiting st"
    and e0: "js_error st = None" and n0: "js_neof st = 0"
    and ns: "\<forall>s \<in> set (js_sources st). \<not> starved s"
  shows "js_error (JoinStream_kick push st) \<noteq> None \<or> js_neof (JoinStream_kick push st) = 1
         \<or> mu (JoinStream_kick push st) < mu st"
proof -
  from inv have wk: "\<not> js_working st"
    and di: "data_inv ins (js_sources st) (js_pushed st)" by (simp_all add: engine_inv_def)
  obtain srcs blocked e where r: "kick_read 0 (js_sources st) False = (srcs, blocked, e)"
    by (metis prod_cases3)
  note unf = kick_unfold[OF nw wk r, of push]
  note m = kick_read_mu[OF r]
  from kick_read_pull[OF r] have di': "data_inv ins srcs (js_pushed st)"
    using data_inv_pull[OF di] by blast
  show ?thesis
  proof (cases e)
    case (Some i)
    with unf show ?thesis by simp
  next
    case None
    from kick_read_None[OF r[unfolded None]] ns
    have s: "srcs = map pull (js_sources st)" and nb: "\<not> blocked" by auto
    from s ns have rdy: "\<forall>s \<in> set srcs. ready s" by (auto simp: ready_pull)
    show ?thesis
    proof (cases "kick_joinkey srcs None")
      case None
      from data_inv_finish[OF di' rdy None]
      have "filter (\<lambda>s. \<not> src_done s) srcs = []" by (simp add: filter_empty_conv)
      with unf \<open>e = None\<close> nb None n0 show ?thesis by simp
    next
      case (Some k)
      let ?st' = "st\<lparr>js_sources := map (consume k) srcs,
                      js_pushed := js_pushed st @ [(k, map (slot_of k) srcs)]\<rparr>"
      from kick_joinkey_some[OF Some] obtain s where s: "s \<in> set srcs" "src_next_join s = Some k"
        by auto
      from data_inv_set[OF di' s(1)] s(2) have "src_next s \<noteq> None"
        by (cases "src_next s") (auto simp: src_inv_def)
      with s have "\<exists>s \<in> set srcs. src_next_join s = Some k \<and> src_next s \<noteq> None" by blast
      from sum_mu_consume_less[OF this] m have lt: "mu ?st' < mu st" by (simp add: mu_def)
      have "mu (JoinStream_kick push st) < mu st"
      proof (cases "push (length (js_pushed st))")
        case False
        with unf \<open>e = None\<close> nb Some lt show ?thesis by simp
      next
        case True
        with unf \<open>e = None\<close> nb Some have "JoinStream_kick push st = JoinStream_kick push ?st'"
          by simp
        with kick_mu[of push ?st'] lt show ?thesis by simp
      qed
      then show ?thesis by simp
    qed
  qed
qed

lemma mu_waiting [simp]: "mu (st\<lparr>js_waiting := b\<rparr>) = mu st"
  by (simp add: mu_def)

lemma kickIfWaiting_mu: "mu (kickIfWaiting push st) \<le> mu st"
  using kick_mu[of push "st\<lparr>js_waiting := False\<rparr>"] by (simp add: kickIfWaiting_def)

lemma sum_mu_update_less:
  assumes "i < length srcs" and "src_mu s' < src_mu (srcs ! i)"
  shows "sum_list (map src_mu (srcs[i := s'])) < sum_list (map src_mu srcs)"
  using assms
proof (induction srcs arbitrary: i)
  case Nil
  then show ?case by simp
next
  case (Cons s rest)
  then show ?case by (cases i) auto
qed

lemma src_mu_produce:
  "rs_pending (src_stream s) \<noteq> [] \<Longrightarrow>
   src_mu (produce (length (rs_pending (src_stream s))) s) < src_mu s"
  by (simp add: src_mu_def remaining_produce) (simp add: produce_def)

lemma src_mu_done: "\<not> src_done s \<Longrightarrow> src_mu (s\<lparr>src_done := True\<rparr>) < src_mu s"
  by (simp add: src_mu_def remaining_done)

lemma produce_0: "produce 0 s = s"
  by (simp add: produce_def)

lemma progress_step:
  assumes inv: "engine_inv ins st" and e0: "js_error st = None" and n0: "js_neof st = 0"
    and ne: "js_sources st \<noteq> []"
  shows "\<exists>ev. js_error (step push st ev) \<noteq> None \<or> js_neof (step push st ev) = 1
            \<or> mu (step push st ev) < mu st"
proof -
  let ?srcs = "js_sources st"
  consider
    (B) i where "i < length ?srcs" "rs_pending (src_stream (?srcs ! i)) \<noteq> []"
  | (A) i where "i < length ?srcs" "\<not> src_done (?srcs ! i)" "exhausted (?srcs ! i)"
  | (C) "\<forall>s \<in> set ?srcs. \<not> starved s"
  proof -
    have "(\<exists>i < length ?srcs. rs_pending (src_stream (?srcs ! i)) \<noteq> [])
        \<or> (\<exists>i < length ?srcs. \<not> src_done (?srcs ! i) \<and> exhausted (?srcs ! i))
        \<or> (\<forall>s \<in> set ?srcs. \<not> starved s)"
      by (auto simp: starved_def exhausted_def in_set_conv_nth)
    then show ?thesis using that by blast
  qed
  then show ?thesis
  proof cases
    case B
    let ?n = "length (rs_pending (src_stream (?srcs ! i)))"
    let ?st1 = "st\<lparr>js_sources := ?srcs[i := produce ?n (?srcs ! i)]\<rparr>"
    have "mu ?st1 < mu st"
      using sum_mu_update_less[OF B(1) src_mu_produce[OF B(2)]] by (simp add: mu_def)
    with kickIfWaiting_mu[of push ?st1]
    have "mu (step push st (SourceReadable i ?n)) < mu st"
      using e0 B(1) by (simp add: step_def sourceReadable_def)
    then show ?thesis by blast
  next
    case A
    let ?st1 = "st\<lparr>js_sources := ?srcs[i := (?srcs ! i)\<lparr>src_done := True\<rparr>]\<rparr>"
    have "mu ?st1 < mu st"
      using sum_mu_update_less[OF A(1) src_mu_done[OF A(2)]] by (simp add: mu_def)
    with kickIfWaiting_mu[of push ?st1]
    have "mu (step push st (SourceEnded i)) < mu st"
      using e0 A(1,3) by (simp add: step_def sourceEnded_def)
    then show ?thesis by blast
  next
    case C
    let ?sk = "st\<lparr>js_waiting := False\<rparr>"
    have invk: "engine_inv ins ?sk" using inv n0 by (simp add: engine_inv_def)
    from kick_progress[OF invk, of push] e0 n0 C
    have p: "js_error (JoinStream_kick push ?sk) \<noteq> None \<or> js_neof (JoinStream_kick push ?sk) = 1
         \<or> mu (JoinStream_kick push ?sk) < mu st" by simp
    show ?thesis
    proof (cases "js_waiting st")
      case True
      from ne have "0 < length ?srcs" by simp
      with True e0 have "step push st (SourceReadable 0 0) = JoinStream_kick push ?sk"
        by (simp add: step_def sourceReadable_def kickIfWaiting_def produce_0)
      with p show ?thesis by metis
    next
      case False
      then have sk: "?sk = st" by simp
      from inv have "\<not> js_working st" by (simp add: engine_inv_def)
      then have "step push st FrameworkRead = JoinStream_kick push st"
        using False e0 n0 by (simp add: step_def JoinStream_read_def)
      then have "step push st FrameworkRead = JoinStream_kick push ?sk"
        unfolding sk .
      with p show ?thesis by metis
    qed
  qed
qed

lemma run_Cons: "run push st (ev # evs) = run push (step push st ev) evs"
  by (simp add: run_def)

lemma run_append: "run push st (evs @ evs') = run push (run push st evs) evs'"
  by (simp add: run_def)

lemma completion_possible:
  assumes "engine_inv ins st" and "js_sources st \<noteq> []"
  shows "\<exists>evs. js_error (run push st evs) \<noteq> None \<or> js_neof (run push st evs) = 1"
  using assms
proof (induction "mu st" arbitrary: st rule: less_induct)
  case less
  show ?case
  proof (cases "js_error st \<noteq> None \<or> js_neof st = 1")
    case True
    then have "js_error (run push st []) \<noteq> None \<or> js_neof (run push st []) = 1"
      by (simp add: run_def)
    then show ?thesis by blast
  next
    case False
    with less.prems(1) have e0: "js_error st = None" and n0: "js_neof st = 0"
      by (auto simp: engine_inv_def)
    from progress_step[OF less.prems(1) e0 n0 less.prems(2), of push] obtain ev where
      ev: "js_error (step push st ev) \<noteq> None \<or> js_neof (step push st ev) = 1
            \<or> mu (step push st ev) < mu st" by blast
    show ?thesis
    proof (cases "mu (step push st ev) < mu st")
      case True
      have i: "engine_inv ins (step push st ev)" by (rule step_inv[OF less.prems(1)])
      have l: "length (js_sources (step push st ev)) = length (js_sources st)"
        using i less.prems(1) by (simp add: engine_inv_def data_inv_def)
      with less.prems(2) have "js_sources (step push st ev) \<noteq> []" by auto
      from less.hyps[OF True i this] obtain evs where
        "js_error (run push (step push st ev) evs) \<noteq> None \<or> js_neof (run push (step push st ev) evs) = 1"
        by blast
      then have "js_error (run push st (ev # evs)) \<noteq> None \<or> js_neof (run push st (ev # evs)) = 1"
        by (simp add: run_Cons)
      then show ?thesis by blast
    next
      case False
      with ev have "js_error (run push st [ev]) \<noteq> None \<or> js_neof (run push st [ev]) = 1"
        by (simp add: run_def)
      then show ?thesis by blast
    qed
  qed
qed

section \<open>The classifier\<close>

lemma or0_num: "a \<noteq> NaN \<Longrightarrow> or0 (Some a) = a"
  by (cases a) (simp_all add: or0_def)

lemma JSON_stringify_number_Fin [simp]: "JSON_stringify_number (Fin r) = JsonNumber r"
  by (simp add: JSON_stringify_number_def)

text \<open>
  C1.  The decision table of the classifier, for a row of two slots whose counts are
  numbers.  Both present: equal counts give \<open>count okay\<close>, pushed only in verbose mode,
  and different counts give \<open>error: count mismatch\<close>.  Raw count alone: zero gives
  \<open>warn: missing optimized count\<close>, anything else \<open>error: count mismatch (no optimized
  count)\<close>.  Reported count alone: zero gives \<open>warn: leaked optimized count\<close>, anything
  else \<open>error: count mismatch (no entries)\<close>.  The line carries the key and the two
  counts as \<^verbatim>\<open>JSON.stringify\<close> writes them, 0 for an absent count.
\<close>

theorem emitRow_decision_table:
  assumes "a \<noteq> NaN" and "b \<noteq> NaN"
  shows "AuditStream_transform verbose (key, [Some (a, ka), Some (b, kb)]) =
           (if a = b
            then (if verbose
                  then Inr (Some \<lparr>dirname = key, ndirents = JSON_stringify_number a,
                                  nreported = JSON_stringify_number b,
                                  status = ''count okay''\<rparr>)
                  else Inr None)
            else Inr (Some \<lparr>dirname = key, ndirents = JSON_stringify_number a,
                            nreported = JSON_stringify_number b,
                            status = ''error: count mismatch''\<rparr>))
       \<and> AuditStream_transform verbose (key, [Some (a, ka), None]) =
           Inr (Some \<lparr>dirname = key, ndirents = JSON_stringify_number a,
                      nreported = JsonNumber 0,
                      status = (if a = Fin 0 then ''warn: missing optimized count''
                                else ''error: count mismatch (no optimized count)'')\<rparr>)
       \<and> AuditStream_transform verbose (key, [None, Some (b, kb)]) =
           Inr (Some \<lparr>dirname = key, ndirents = JsonNumber 0,
                      nreported = JSON_stringify_number b,
                      status = (if b = Fin 0 then ''warn: leaked optimized count''
                                else ''error: count mismatch (no entries)'')\<rparr>)"
  using assms
  by (simp add: AuditStream_transform_def emitRow_def emitRowRaw_def strict_eq0_def
        loose_neq_def num_eq_def or0_num) (simp add: or0_def)

text \<open>The pairs (3, 3), (5, 3), (5, absent), (absent, 0) and (absent, 7).\<close>

theorem emitRow_decision_table_witness:
  "AuditStream_transform False (js ''k'', [Some (Fin 3, js ''k''), Some (Fin 3, js ''k'')]) =
     Inr None
   \<and> AuditStream_transform True (js ''k'', [Some (Fin 3, js ''k''), Some (Fin 3, js ''k'')]) =
     Inr (Some \<lparr>dirname = js ''k'', ndirents = JsonNumber 3, nreported = JsonNumber 3,
                status = ''count okay''\<rparr>)
   \<and> AuditStream_transform False (js ''k'', [Some (Fin 5, js ''k''), Some (Fin 3, js ''k'')]) =
     Inr (Some \<lparr>dirname = js ''k'', ndirents = JsonNumber 5, nreported = JsonNumber 3,
                status = ''error: count mismatch''\<rparr>)
   \<and> AuditStream_transform False (js ''k'', [Some (Fin 5, js ''k''), None]) =
     Inr (Some \<lparr>dirname = js ''k'', ndirents = JsonNumber 5, nreported = JsonNumber 0,
                status = ''error: count mismatch (no optimized count)''\<rparr>)
   \<and> AuditStream_transform False (js ''k'', [None, Some (Fin 0, js ''k'')]) =
     Inr (Some \<lparr>dirname = js ''k'', ndirents = JsonNumber 0, nreported = JsonNumber 0,
                status = ''warn: leaked optimized count''\<rparr>)
   \<and> AuditStream_transform False (js ''k'', [None, Some (Fin 7, js ''k'')]) =
     Inr (Some \<lparr>dirname = js ''k'', ndirents = JsonNumber 0, nreported = JsonNumber 7,
                status = ''error: count mismatch (no entries)''\<rparr>)"
  using emitRow_decision_table [of "Fin 3" "Fin 3" False "js ''k''" "js ''k''" "js ''k''"]
    emitRow_decision_table [of "Fin 3" "Fin 3" True "js ''k''" "js ''k''" "js ''k''"]
    emitRow_decision_table [of "Fin 5" "Fin 3" False "js ''k''" "js ''k''" "js ''k''"]
    emitRow_decision_table [of "Fin 5" "Fin 0" False "js ''k''" "js ''k''" "js ''k''"]
    emitRow_decision_table [of "Fin 5" "Fin 7" False "js ''k''" "js ''k''" "js ''k''"]
  by simp

section \<open>The merge engine\<close>

subsection \<open>Byte order\<close>



















subsection \<open>The rows of sorted inputs\<close>




lemma step_finished:
  assumes "engine_inv ins st" and "js_neof st = 1"
  shows "js_neof (step push st ev) = 1 \<and> js_pushed (step push st ev) = js_pushed st"
proof -
  from assms have w: "\<not> js_waiting st" by (simp add: engine_inv_def)
  show ?thesis
    using assms(2) w
    by (cases ev)
       (simp_all add: step_def sourceReadable_def sourceEnded_def kickIfWaiting_def)
qed

lemma run_finished:
  assumes "engine_inv ins st" and "js_neof st = 1"
  shows "js_neof (run push st evs) = 1 \<and> js_pushed (run push st evs) = js_pushed st"
proof (induction evs rule: rev_induct)
  case Nil
  with assms show ?case by (simp add: run_def)
next
  case (snoc ev evs)
  from step_finished[OF run_inv[OF assms(1)], of push evs push ev] snoc show ?case
    by (simp add: run_snoc)
qed

lemma run_failed: "js_error st \<noteq> None \<Longrightarrow> run push st evs = st"
  by (induction evs rule: rev_induct) (simp_all add: run_def step_def)

text \<open>
  C7.  In every run the end-of-stream marker is pushed at most once and no assertion of
  the engine fails.  When the marker has been pushed, there is no error, every source
  has ended with nothing buffered in the engine or in its stream, every record of every
  input is in a pushed row, and whatever happens afterwards the marker is not pushed
  again and no row follows it.  Every run can be continued until the marker is pushed
  or the fatal error is emitted.
\<close>

theorem completion_signalled_once:
  "js_neof (run push (pipeline files) evs) \<le> 1
   \<and> js_error (run push (pipeline files) evs) \<noteq> Some AssertionError
   \<and> (js_neof (run push (pipeline files) evs) = 1 \<longrightarrow>
        js_error (run push (pipeline files) evs) = None
        \<and> (\<forall>s \<in> set (js_sources (run push (pipeline files) evs)).
              src_done s \<and> src_next s = None \<and> exhausted s)
        \<and> (\<forall>i < length files.
              joined i (js_pushed (run push (pipeline files) evs)) = parse_file (files ! i))
        \<and> (\<forall>evs'. js_neof (run push (pipeline files) (evs @ evs')) = 1
                  \<and> js_pushed (run push (pipeline files) (evs @ evs'))
                      = js_pushed (run push (pipeline files) evs)))
   \<and> (files \<noteq> [] \<longrightarrow>
        (\<exists>evs'. js_neof (run push (pipeline files) (evs @ evs')) = 1
               \<or> js_error (run push (pipeline files) (evs @ evs')) \<noteq> None))"
proof -
  let ?ins = "map parse_file files"
  let ?st = "run push (pipeline files) evs"
  have inv: "engine_inv ?ins ?st" by (rule pipeline_inv)
  then have a: "js_neof ?st \<le> 1" "js_error ?st \<noteq> Some AssertionError"
    by (simp_all add: engine_inv_def)
  have "js_neof ?st = 1 \<Longrightarrow>
        js_error ?st = None
        \<and> (\<forall>s \<in> set (js_sources ?st). src_done s \<and> src_next s = None \<and> exhausted s)
        \<and> (\<forall>i < length files. joined i (js_pushed ?st) = parse_file (files ! i))
        \<and> (\<forall>evs'. js_neof (run push (pipeline files) (evs @ evs')) = 1
                  \<and> js_pushed (run push (pipeline files) (evs @ evs')) = js_pushed ?st)"
  proof -
    assume n: "js_neof ?st = 1"
    from inv n have e: "js_error ?st = None"
      and d: "\<forall>s \<in> set (js_sources ?st). src_done s \<and> src_next s = None"
      by (simp_all add: engine_inv_def)
    from inv have di: "data_inv ?ins (js_sources ?st) (js_pushed ?st)" by (simp add: engine_inv_def)
    have x: "\<forall>s \<in> set (js_sources ?st). exhausted s"
    proof
      fix s assume s: "s \<in> set (js_sources ?st)"
      from data_inv_set[OF di s] d s show "exhausted s" by (auto simp: src_inv_def)
    qed
    have j: "\<forall>i < length files. joined i (js_pushed ?st) = parse_file (files ! i)"
      using finished_joined[OF inv n] by simp
    have r: "\<forall>evs'. js_neof (run push (pipeline files) (evs @ evs')) = 1
                  \<and> js_pushed (run push (pipeline files) (evs @ evs')) = js_pushed ?st"
      using run_finished[OF inv n] by (simp add: run_append)
    from e d x j r show ?thesis by blast
  qed
  moreover have "\<exists>evs'. js_neof (run push (pipeline files) (evs @ evs')) = 1
               \<or> js_error (run push (pipeline files) (evs @ evs')) \<noteq> None" if "files \<noteq> []"
  proof -
    from inv that have "js_sources ?st \<noteq> []" by (auto simp: engine_inv_def data_inv_def)
    from completion_possible[OF inv this, of push] show ?thesis
      by (auto simp: run_append)
  qed
  ultimately show ?thesis using a by blast
qed

theorem completion_signalled_once_witness:
  \<open>js_neof (run (\<lambda>n. True) (pipeline [example_A, example_B]) example_events) = 1
   \<and> js_neof (run (\<lambda>n. True) (pipeline [example_A, example_B])
        (example_events @ [FrameworkRead, SourceReadable 0 1, SourceEnded 1])) = 1
   \<and> joined 0 (js_pushed (run (\<lambda>n. True) (pipeline [example_A, example_B]) example_events))
       = parse_file example_A
   \<and> joined 1 (js_pushed (run (\<lambda>n. True) (pipeline [example_A, example_B]) example_events))
       = parse_file example_B\<close>
proof -
  have n: "js_neof (run (\<lambda>n. True) (pipeline [example_A, example_B]) example_events) = 1"
    by (simp add: example_run)
  from completion_signalled_once[of "\<lambda>n. True" "[example_A, example_B]" example_events] n
  have "(\<forall>i < length [example_A, example_B].
           joined i (js_pushed (run (\<lambda>n. True) (pipeline [example_A, example_B]) example_events))
             = parse_file ([example_A, example_B] ! i))"
    and "\<forall>evs'. js_neof (run (\<lambda>n. True) (pipeline [example_A, example_B]) (example_events @ evs')) = 1"
    by blast+
  then show ?thesis using n by (auto simp: nth_Cons split: nat.splits)
qed

text \<open>
  C9.  At every point of every run, the records of input \<open>i\<close> are, in their order:
  those already joined into pushed rows, then the one record the engine holds for the
  source in \<^verbatim>\<open>src_next\<close> if it holds one, then those still in the stream.  So of the
  records pulled from a source at most one is not yet joined, whatever the size of the
  input, and none is dropped or overwritten.
\<close>

theorem at_most_one_record_held:
  assumes "i < length files"
  shows "parse_file (files ! i) =
           joined i (js_pushed (run push (pipeline files) evs))
           @ opt_list (src_next (js_sources (run push (pipeline files) evs) ! i))
           @ rs_buffer (src_stream (js_sources (run push (pipeline files) evs) ! i))
           @ rs_pending (src_stream (js_sources (run push (pipeline files) evs) ! i))
       \<and> length (opt_list (src_next (js_sources (run push (pipeline files) evs) ! i))) \<le> 1"
proof -
  let ?st = "run push (pipeline files) evs"
  have "engine_inv (map parse_file files) ?st" by (rule pipeline_inv)
  with assms have "src_inv (parse_file (files ! i)) (joined i (js_pushed ?st)) (js_sources ?st ! i)"
    by (simp add: engine_inv_def data_inv_def)
  then show ?thesis
    by (simp add: src_inv_def remaining_def opt_list_def split: option.splits)
qed

definition waiting_events :: "event list" where
  "waiting_events = [SourceReadable 0 2, FrameworkRead]"

lemma waiting_run:
  \<open>run (\<lambda>n. True) (pipeline [example_A, example_B]) waiting_events =
     \<lparr>js_waiting = True, js_working = False,
      js_sources =
        [\<lparr>src_stream = \<lparr>rs_buffer = [(Fin 5, js ''"b"'')], rs_pending = [(Fin 2, js ''"c"'')]\<rparr>,
          src_next = Some (Fin 3, js ''"a"''),
          src_next_join = Some (js ''"a"''), src_last_join = None, src_done = False\<rparr>,
         \<lparr>src_stream = \<lparr>rs_buffer = [],
            rs_pending = [(Fin 3, js ''"a"''), (Fin 0, js ''"b"''), (Fin 7, js ''"d"'')]\<rparr>,
          src_next = None,
          src_next_join = None, src_last_join = None, src_done = False\<rparr>],
      js_pushed = [], js_neof = 0, js_error = None\<rparr>\<close>
  unfolding example_pipeline by code_simp

theorem at_most_one_record_held_witness:
  \<open>(0::nat) < length [example_A, example_B]
   \<and> src_next (js_sources (run (\<lambda>n. True) (pipeline [example_A, example_B]) waiting_events) ! 0)
       = Some (Fin 3, js ''"a"'')
   \<and> parse_file example_A =
        joined 0 (js_pushed (run (\<lambda>n. True) (pipeline [example_A, example_B]) waiting_events))
        @ [(Fin 3, js ''"a"'')] @ [(Fin 5, js ''"b"'')] @ [(Fin 2, js ''"c"'')]\<close>
  using at_most_one_record_held [of 0 "[example_A, example_B]" "\<lambda>n. True" waiting_events]
  by (simp add: waiting_run opt_list_def)

lemma pipeline_src_inv:
  assumes "i < length files"
  shows "src_inv (parse_file (files ! i)) (joined i (js_pushed (run push (pipeline files) evs)))
           (js_sources (run push (pipeline files) evs) ! i)"
    and "\<forall>d \<in> set (parse_file (files ! i)). to_number (snd d) = NaN"
    and "length (js_sources (run push (pipeline files) evs)) = length files"
  using pipeline_inv[of files push evs] assms
  by (simp_all add: engine_inv_def data_inv_def parse_file_records)

subsection \<open>The order of the records each source has delivered\<close>

text \<open>
  The records the engine has pulled from source \<open>i\<close>: those it has joined into pushed
  rows, then the one it holds in \<^verbatim>\<open>src_next\<close>.  Their keys are in order, the last one
  excepted when it is the record for which the engine emitted the order-violation
  error.
\<close>

lemma take_row_Some: "take_row k xs = Some x \<Longrightarrow> x \<in> set xs \<and> snd x = k"
  by (cases xs) (auto simp: take_row_def split: if_splits)

lemma set_drop_row: "set (drop_row k xs) \<subseteq> set xs"
  by (cases xs) (auto simp: drop_row_def)

lemma merge_rows_shape:
  "(k, slots) \<in> set (merge_rows rs) \<Longrightarrow>
   length slots = length rs \<and>
   (\<forall>i < length rs. \<forall>x. slots ! i = Some x \<longrightarrow> x \<in> set (rs ! i) \<and> snd x = k)"
proof (induction rs rule: merge_rows.induct)
  case (1 rs)
  show ?case
  proof (cases "min_key (map head_key rs)")
    case None
    with merge_rows_Nil[OF None] "1.prems" show ?thesis by simp
  next
    case (Some m)
    from "1.prems" have "(k, slots) = (m, map (take_row m) rs)
        \<or> (k, slots) \<in> set (merge_rows (map (drop_row m) rs))"
      by (simp add: merge_rows_Cons[OF Some])
    then show ?thesis
    proof
      assume "(k, slots) = (m, map (take_row m) rs)"
      then show ?thesis by (auto dest: take_row_Some)
    next
      assume "(k, slots) \<in> set (merge_rows (map (drop_row m) rs))"
      from "1.IH"[OF Some this] show ?thesis
        using set_drop_row by (auto simp: subset_iff) 
    qed
  qed
qed

lemma pushed_in_merge:
  assumes "row \<in> set (js_pushed (run push (pipeline files) evs))"
  shows "row \<in> set (merge_rows (map parse_file files))"
proof -
  from pushed_prefix[OF pipeline_inv[of files push evs]] obtain rest where
    "merge_rows (map parse_file files) = js_pushed (run push (pipeline files) evs) @ rest" ..
  with assms show ?thesis by simp
qed

definition pulled :: "row list \<Rightarrow> source list \<Rightarrow> nat \<Rightarrow> datum list" where
  "pulled rows srcs i = joined i rows @ opt_list (src_next (srcs ! i))"

definition order_inv :: "joinstream \<Rightarrow> bool" where
  "order_inv st \<longleftrightarrow>
     (\<forall>i < length (js_sources st).
        sorted (map snd (joined i (js_pushed st))) \<and>
        (js_error st \<noteq> Some (OutOfOrder i) \<longrightarrow>
         sorted (map snd (pulled (js_pushed st) (js_sources st) i))))"

lemma pulled_sorted_joined:
  "sorted (map snd (pulled rows srcs i)) \<Longrightarrow> sorted (map snd (joined i rows))"
  by (simp add: pulled_def sorted_append)

lemma sorted_le_last: "sorted xs \<Longrightarrow> x \<in> set xs \<Longrightarrow> x \<le> last xs"
  by (induction xs) (auto split: if_splits)

lemma sorted_snoc_keys:
  fixes jd :: "datum list" and d :: datum
  assumes "sorted (map snd jd)" and "\<not> (jd \<noteq> [] \<and> snd d < snd (last jd))"
  shows "sorted (map snd (jd @ [d]))"
proof (cases "jd = []")
  case True
  then show ?thesis by simp
next
  case False
  with assms(2) have le: "snd (last jd) \<le> snd d" by simp
  have "\<forall>x \<in> set (map snd jd). x \<le> snd d"
  proof
    fix x assume "x \<in> set (map snd jd)"
    from sorted_le_last[OF assms(1) this] False le show "x \<le> snd d"
      by (simp add: last_map)
  qed
  with assms(1) show ?thesis by (simp add: sorted_append)
qed

lemma pulled_pull:
  assumes "src_inv inp (joined i rows) (srcs ! i)"
    and "\<forall>d \<in> set inp. to_number (snd d) = NaN"
    and "sorted (map snd (pulled rows srcs i))"
    and "\<not> violates (srcs ! i)"
    and "srcs' ! i = srcs ! i \<or> srcs' ! i = pull (srcs ! i)"
  shows "sorted (map snd (pulled rows srcs' i))"
proof (cases "pulls (srcs ! i)")
  case None
  from pull_id[OF this] assms(3,5) show ?thesis by (auto simp: pulled_def)
next
  case (Some d)
  then have n: "src_next (srcs ! i) = None"
    by (cases "src_next (srcs ! i)") (auto simp: pulls_def split: if_splits)
  with assms(3) have s: "sorted (map snd (joined i rows))" by (simp add: pulled_def opt_list_def)
  from assms(4) violates_iff[OF assms(1,2)] Some
  have "\<not> (joined i rows \<noteq> [] \<and> snd d < snd (last (joined i rows)))" by simp
  from sorted_snoc_keys[OF s this] have "sorted (map snd (joined i rows @ [d]))" .
  with assms(3,5) pull_pulls[OF Some] show ?thesis
    by (auto simp: pulled_def opt_list_def)
qed

lemma pulled_consume:
  assumes "i < length srcs"
  shows "pulled (rows @ [(k, map (slot_of k) srcs)]) (map (consume k) srcs) i = pulled rows srcs i"
  using assms
  by (simp add: pulled_def joined_snoc slot_of_def consume_def opt_list_def)

lemma kick_read_after:
  "kick_read i srcs b = (srcs', b', Some j) \<Longrightarrow>
   \<forall>m. j - i < m \<and> m < length srcs \<longrightarrow> srcs' ! m = srcs ! m"
proof (induction srcs arbitrary: i b srcs' b')
  case Nil
  then show ?case by simp
next
  case (Cons s rest)
  show ?case
  proof (cases "pulls s")
    case None
    with Cons.prems obtain rest' where
      r: "kick_read (Suc i) rest (b \<or> starved s) = (rest', b', Some j)" and s': "srcs' = s # rest'"
      unfolding kick_read_step_skip[OF None] by (auto split: prod.splits)
    from kick_read_Some[OF r] have "Suc i \<le> j" by simp
    then have e: "j - i = Suc (j - Suc i)" by simp
    from Cons.IH[OF r] show ?thesis
      unfolding e s' by (auto simp: nth_Cons split: nat.splits)
  next
    case (Some d)
    show ?thesis
    proof (cases "js_lt (Some (snd d)) (src_last_join s)")
      case True
      with Some Cons.prems have "j = i" and "srcs' = pull s # rest"
        unfolding kick_read_step_pull[OF Some] by simp_all
      then show ?thesis by (auto simp: nth_Cons split: nat.splits)
    next
      case False
      with Some Cons.prems obtain rest' where
        r: "kick_read (Suc i) rest b = (rest', b', Some j)" and s': "srcs' = pull s # rest'"
        unfolding kick_read_step_pull[OF Some] by (auto split: prod.splits)
      from kick_read_Some[OF r] have "Suc i \<le> j" by simp
      then have e: "j - i = Suc (j - Suc i)" by simp
      from Cons.IH[OF r] show ?thesis
        unfolding e s' by (auto simp: nth_Cons split: nat.splits)
    qed
  qed
qed

lemma kick_order:
  "engine_inv ins st \<Longrightarrow> \<not> js_waiting st \<Longrightarrow> js_error st = None \<Longrightarrow> js_neof st = 0 \<Longrightarrow>
   keys_ok ins \<Longrightarrow> order_inv st \<Longrightarrow> order_inv (JoinStream_kick push st)"
proof (induction push st rule: JoinStream_kick.induct)
  case (1 push st)
  obtain srcs blocked e where r: "kick_read 0 (js_sources st) False = (srcs, blocked, e)"
    by (metis prod_cases3)
  from "1.prems" have nw: "\<not> js_waiting st" "\<not> js_working st"
    and di: "data_inv ins (js_sources st) (js_pushed st)"
    by (auto simp: engine_inv_def)
  note unf = kick_unfold[OF nw r, of push]
  from kick_read_pull[OF r] have len: "length srcs = length (js_sources st)"
    and pl: "\<forall>j < length (js_sources st). srcs ! j = js_sources st ! j \<or> srcs ! j = pull (js_sources st ! j)"
    by simp_all
  from pl di have di': "data_inv ins srcs (js_pushed st)"
    using data_inv_pull[OF di len] by blast
  have si: "\<And>i. i < length (js_sources st) \<Longrightarrow>
      src_inv (ins ! i) (joined i (js_pushed st)) (js_sources st ! i)
      \<and> (\<forall>d \<in> set (ins ! i). to_number (snd d) = NaN)"
    using di "1.prems"(5) by (auto simp: data_inv_def keys_ok_def)
  have so: "\<And>i. i < length (js_sources st) \<Longrightarrow>
      sorted (map snd (pulled (js_pushed st) (js_sources st) i))"
    using "1.prems"(3,6) by (simp add: order_inv_def)
  have keep: "sorted (map snd (pulled (js_pushed st) srcs i))"
    if "i < length (js_sources st)" and "\<not> violates (js_sources st ! i)" for i
    using pulled_pull[OF si[OF that(1), THEN conjunct1] si[OF that(1), THEN conjunct2]
        so[OF that(1)] that(2)] pl that(1) by blast
  show ?case
  proof (cases e)
    case (Some j)
    from kick_read_Some[OF r[unfolded Some]]
    have j: "j < length (js_sources st)" and nv: "\<forall>m < j. \<not> violates (js_sources st ! m)"
      by simp_all
    from kick_read_after[OF r[unfolded Some]]
    have af: "\<forall>m. j < m \<and> m < length (js_sources st) \<longrightarrow> srcs ! m = js_sources st ! m" by simp
    have "sorted (map snd (pulled (js_pushed st) srcs i))"
      if "i < length (js_sources st)" and "i \<noteq> j" for i
    proof (cases "i < j")
      case True
      with nv keep[OF that(1)] show ?thesis by simp
    next
      case False
      with that have "j < i" by simp
      with af that(1) have "srcs ! i = js_sources st ! i" by simp
      with so[OF that(1)] show ?thesis by (simp add: pulled_def)
    qed
    with unf Some len pulled_sorted_joined[OF so] show ?thesis by (simp add: order_inv_def)
  next
    case None
    note eN = this
    from kick_read_None[OF r[unfolded eN]]
    have nv: "\<forall>s \<in> set (js_sources st). \<not> violates s" by simp
    have all: "\<And>i. i < length (js_sources st) \<Longrightarrow> sorted (map snd (pulled (js_pushed st) srcs i))"
      using keep nv by simp
    note allj = pulled_sorted_joined[OF all]
    show ?thesis
    proof (cases blocked)
      case True
      with unf eN all allj len show ?thesis by (simp add: order_inv_def)
    next
      case False
      from kick_read_None[OF r[unfolded eN]] False
      have "srcs = map pull (js_sources st)" and "\<forall>s \<in> set (js_sources st). \<not> starved s"
        by auto
      then have rdy: "\<forall>s \<in> set srcs. ready s" by (auto simp: ready_pull)
      show ?thesis
      proof (cases "kick_joinkey srcs None")
        case None
        with unf eN False all allj len show ?thesis by (simp add: order_inv_def)
      next
        case (Some k)
        let ?st' = "st\<lparr>js_sources := map (consume k) srcs,
                        js_pushed := js_pushed st @ [(k, map (slot_of k) srcs)]\<rparr>"
        from data_inv_emit[OF di' rdy Some] "1.prems"
        have inv': "engine_inv ins ?st'" by (simp add: engine_inv_def)
        have ord': "order_inv ?st'"
        proof -
          have p: "sorted (map snd (pulled (js_pushed ?st') (js_sources ?st') i))"
            if "i < length (js_sources st)" for i
            using all[OF that] that len by (simp add: pulled_consume)
          from p pulled_sorted_joined[OF p] len show ?thesis by (simp add: order_inv_def)
        qed
        show ?thesis
        proof (cases "push (length (js_pushed st))")
          case False
          with unf eN \<open>\<not> blocked\<close> Some ord' show ?thesis by simp
        next
          case True
          have "order_inv (JoinStream_kick push ?st')"
          proof (rule "1.IH"[where xb = ?st'])
            show "\<not> (js_waiting st \<or> js_working st)" using nw by simp
            show "(srcs, blocked, e) = kick_read 0 (js_sources st) False" using r by simp
            show "(blocked, e) = (blocked, e)" ..
            show "e = None" by (rule eN)
            show "\<not> blocked" by (rule \<open>\<not> blocked\<close>)
            show "kick_joinkey srcs None = Some k" by (rule Some)
            show "(map (slot_of k) srcs, map (consume k) srcs) = kick_output k srcs"
              by (simp add: kick_output_eq)
            show "?st' = st\<lparr>js_sources := map (consume k) srcs,
                        js_pushed := js_pushed st @ [(k, map (slot_of k) srcs)]\<rparr>" ..
            show "push (length (js_pushed st)) = push (length (js_pushed st))" ..
            show "push (length (js_pushed st))" by (rule True)
            show "engine_inv ins ?st'" by (rule inv')
            show "\<not> js_waiting ?st'" using nw by simp
            show "js_error ?st' = None" using "1.prems" by simp
            show "js_neof ?st' = 0" using "1.prems" by simp
            show "keys_ok ins" by (rule "1.prems"(5))
            show "order_inv ?st'" by (rule ord')
          qed
          with unf eN \<open>\<not> blocked\<close> Some True show ?thesis by simp
        qed
      qed
    qed
  qed
qed

lemma order_update:
  assumes "order_inv st" and "src_next s' = src_next (js_sources st ! i)"
  shows "order_inv (st\<lparr>js_sources := (js_sources st)[i := s']\<rparr>)"
proof -
  have "pulled rows ((js_sources st)[i := s']) j = pulled rows (js_sources st) j"
    if "j < length (js_sources st)" for j rows
    using that assms(2) by (cases "j = i") (simp_all add: pulled_def)
  with assms(1) show ?thesis by (simp add: order_inv_def)
qed

lemma kickIfWaiting_order:
  assumes "engine_inv ins st" and "js_error st = None" and "keys_ok ins" and "order_inv st"
  shows "order_inv (kickIfWaiting push st)"
proof (cases "js_waiting st")
  case False
  with assms show ?thesis by (simp add: kickIfWaiting_def)
next
  case True
  with assms have n0: "js_neof st = 0" by (auto simp: engine_inv_def)
  have i: "engine_inv ins (st\<lparr>js_waiting := False\<rparr>)"
    using assms n0 by (simp add: engine_inv_def)
  have o: "order_inv (st\<lparr>js_waiting := False\<rparr>)"
    using assms(4) by (simp add: order_inv_def)
  from kick_order[OF i _ _ _ assms(3) o, of push] assms(2) n0 True show ?thesis
    by (simp add: kickIfWaiting_def)
qed

lemma step_order:
  assumes "engine_inv ins st" and "keys_ok ins" and "order_inv st"
  shows "order_inv (step push st ev)"
proof (cases "js_error st = None")
  case False
  with assms(3) show ?thesis by (simp add: step_def)
next
  case e: True
  show ?thesis
  proof (cases ev)
    case FrameworkRead
    show ?thesis
    proof (cases "js_neof st \<noteq> 0 \<or> js_working st \<or> js_waiting st")
      case True
      with assms FrameworkRead show ?thesis by (auto simp: step_def JoinStream_read_def)
    next
      case False
      with kick_order[OF assms(1) _ e _ assms(2,3), of push] e FrameworkRead
      show ?thesis by (simp add: step_def JoinStream_read_def)
    qed
  next
    case (SourceReadable i n)
    show ?thesis
    proof (cases "i < length (js_sources st)")
      case False
      with assms SourceReadable show ?thesis by (simp add: step_def)
    next
      case True
      have o: "order_inv (st\<lparr>js_sources := (js_sources st)[i := produce n (js_sources st ! i)]\<rparr>)"
        by (rule order_update[OF assms(3)]) (simp add: produce_def)
      from kickIfWaiting_order[OF produce_inv[OF assms(1) e True] _ assms(2) o, of push]
        e True SourceReadable
      show ?thesis by (simp add: step_def sourceReadable_def)
    qed
  next
    case (SourceEnded i)
    show ?thesis
    proof (cases "i < length (js_sources st) \<and> exhausted (js_sources st ! i)")
      case False
      with assms SourceEnded show ?thesis by (auto simp: step_def)
    next
      case True
      then have t: "i < length (js_sources st)" "exhausted (js_sources st ! i)" by simp_all
      have o: "order_inv (st\<lparr>js_sources := (js_sources st)[i := (js_sources st ! i)\<lparr>src_done := True\<rparr>]\<rparr>)"
        by (rule order_update[OF assms(3)]) simp
      from kickIfWaiting_order[OF ended_inv[OF assms(1) e t] _ assms(2) o, of push]
        e True SourceEnded
      show ?thesis by (simp add: step_def sourceEnded_def)
    qed
  qed
qed

lemma init_order: "order_inv (JoinStream ins)"
  by (simp add: order_inv_def JoinStream_def pulled_def joined_def new_source_def opt_list_def)

lemma run_order:
  assumes "engine_inv ins st" and "keys_ok ins" and "order_inv st"
  shows "order_inv (run push st evs)"
proof (induction evs rule: rev_induct)
  case Nil
  with assms show ?case by (simp add: run_def)
next
  case (snoc ev evs)
  from step_order[OF run_inv[OF assms(1)] assms(2) snoc] show ?case
    by (simp add: run_snoc)
qed

lemma pipeline_order: "order_inv (run push (pipeline files) evs)"
  unfolding pipeline_def by (rule run_order[OF init_inv keys_ok_pipeline init_order])

text \<open>
  The condition of the order check in the words of the claims: source \<open>i\<close> has delivered
  a record, the one the engine holds for it, whose key is strictly less than the key of
  the last record that source has in a pushed row.
\<close>

definition below_last :: "joinstream \<Rightarrow> nat \<Rightarrow> bool" where
  "below_last st i =
     (case src_next (js_sources st ! i) of
        None \<Rightarrow> False
      | Some d \<Rightarrow> joined i (js_pushed st) \<noteq> [] \<and> snd d < snd (last (joined i (js_pushed st))))"

lemma error_below_last:
  assumes "js_error (run push (pipeline files) evs) = Some (OutOfOrder i)"
  shows "i < length files \<and> below_last (run push (pipeline files) evs) i"
proof -
  let ?st = "run push (pipeline files) evs"
  have inv: "engine_inv (map parse_file files) ?st" by (rule pipeline_inv)
  with assms have i: "i < length (js_sources ?st)" and
    "\<exists>d. src_next (js_sources ?st ! i) = Some d \<and>
         js_lt (Some (snd d)) (src_last_join (js_sources ?st ! i))"
    by (simp_all add: engine_inv_def)
  then obtain d where d: "src_next (js_sources ?st ! i) = Some d"
    "js_lt (Some (snd d)) (src_last_join (js_sources ?st ! i))" by blast
  from inv i have il: "i < length files" by (simp add: engine_inv_def data_inv_def)
  note si = pipeline_src_inv(1)[OF il, of push evs]
  note ok = pipeline_src_inv(2)[OF il]
  from si d(1) have "parse_file (files ! i) =
      joined i (js_pushed ?st) @ d # rs_buffer (src_stream (js_sources ?st ! i))
        @ rs_pending (src_stream (js_sources ?st ! i))"
    by (simp add: src_inv_def remaining_def opt_list_def)
  then have "d \<in> set (parse_file (files ! i))" by simp
  with ok have t: "to_number (snd d) = NaN" by simp
  from si have "src_last_join (js_sources ?st ! i) =
      (if joined i (js_pushed ?st) = [] then None else Some (snd (last (joined i (js_pushed ?st)))))"
    by (simp add: src_inv_def)
  with d(2) t have "joined i (js_pushed ?st) \<noteq> [] \<and> snd d < snd (last (joined i (js_pushed ?st)))"
    by (auto simp: js_lt_None js_lt_strings split: if_splits)
  with d(1) il show ?thesis by (simp add: below_last_def)
qed

lemma below_last_error:
  assumes "i < length files" and "below_last (run push (pipeline files) evs) i"
  shows "js_error (run push (pipeline files) evs) = Some (OutOfOrder i)"
proof (rule ccontr)
  let ?st = "run push (pipeline files) evs"
  assume n: "js_error ?st \<noteq> Some (OutOfOrder i)"
  from assms(2) obtain d where d: "src_next (js_sources ?st ! i) = Some d"
    "joined i (js_pushed ?st) \<noteq> []" "snd d < snd (last (joined i (js_pushed ?st)))"
    by (auto simp: below_last_def split: option.splits)
  from pipeline_src_inv(3)[OF assms(1), of push evs] assms(1)
  have "i < length (js_sources ?st)" by simp
  with pipeline_order[of push files evs] n
  have "sorted (map snd (pulled (js_pushed ?st) (js_sources ?st) i))" by (simp add: order_inv_def)
  with d(1) have "sorted (map snd (joined i (js_pushed ?st)) @ [snd d])"
    by (simp add: pulled_def opt_list_def)
  with d(2) have "snd (last (joined i (js_pushed ?st))) \<le> snd d"
    by (simp add: sorted_append last_map)
  with d(3) show False by simp
qed

lemma joined_bound:
  assumes "i < length files" and "Suc p < length (parse_file (files ! i))"
    and "snd (parse_file (files ! i) ! Suc p) < snd (parse_file (files ! i) ! p)"
  shows "length (joined i (js_pushed (run push (pipeline files) evs))) \<le> Suc p"
proof (rule ccontr)
  let ?st = "run push (pipeline files) evs"
  let ?jd = "joined i (js_pushed ?st)"
  assume "\<not> length ?jd \<le> Suc p"
  then have l: "Suc p < length ?jd" by simp
  from pipeline_src_inv(1)[OF assms(1), of push evs]
  have "?jd @ remaining (js_sources ?st ! i) = parse_file (files ! i)" by (simp add: src_inv_def)
  then have "parse_file (files ! i) ! p = ?jd ! p" "parse_file (files ! i) ! Suc p = ?jd ! Suc p"
    using l by (metis Suc_lessD nth_append)+
  moreover
  from pipeline_src_inv(3)[OF assms(1), of push evs] assms(1)
  have "i < length (js_sources ?st)" by simp
  with pipeline_order[of push files evs] have "sorted (map snd ?jd)" by (simp add: order_inv_def)
  with l have "snd (?jd ! p) \<le> snd (?jd ! Suc p)"
    by (simp add: sorted_iff_nth_mono)
  ultimately show False using assms(3) by simp
qed

lemma unsorted_never_ends:
  assumes "i < length files" and "Suc p < length (parse_file (files ! i))"
    and "snd (parse_file (files ! i) ! Suc p) < snd (parse_file (files ! i) ! p)"
  shows "js_neof (run push (pipeline files) evs) = 0"
proof (rule ccontr)
  let ?st = "run push (pipeline files) evs"
  assume "js_neof ?st \<noteq> 0"
  with pipeline_inv[of files push evs] have n: "js_neof ?st = 1" by (simp add: engine_inv_def)
  from finished_joined[OF pipeline_inv n, of i] assms(1)
  have "joined i (js_pushed ?st) = parse_file (files ! i)" by simp
  with joined_bound[OF assms, of push evs] assms(2) show False by simp
qed

lemma unsorted_fails:
  assumes "i < length files" and "Suc p < length (parse_file (files ! i))"
    and "snd (parse_file (files ! i) ! Suc p) < snd (parse_file (files ! i) ! p)"
  shows "\<exists>evs' j. js_error (run push (pipeline files) (evs @ evs')) = Some (OutOfOrder j)"
proof -
  let ?st = "run push (pipeline files) evs"
  have inv: "engine_inv (map parse_file files) ?st" by (rule pipeline_inv)
  with assms(1) have "js_sources ?st \<noteq> []" by (auto simp: engine_inv_def data_inv_def)
  from completion_possible[OF inv this, of push] obtain evs' where
    "js_error (run push ?st evs') \<noteq> None \<or> js_neof (run push ?st evs') = 1" by blast
  with unsorted_never_ends[OF assms, of push "evs @ evs'"]
  have e: "js_error (run push (pipeline files) (evs @ evs')) \<noteq> None" by (simp add: run_append)
  from pipeline_inv[of files push "evs @ evs'"]
  have "js_error (run push (pipeline files) (evs @ evs')) \<noteq> Some AssertionError"
    by (simp add: engine_inv_def)
  with e obtain j where "js_error (run push (pipeline files) (evs @ evs')) = Some (OutOfOrder j)"
    by (metis error.exhaust option.exhaust)
  then show ?thesis by blast
qed

lemma joined_keys:
  assumes "\<forall>row \<in> set rows. \<forall>x. snd row ! i = Some x \<longrightarrow> snd x = fst row"
  shows "map snd (joined i rows) = map fst (filter (\<lambda>row. snd row ! i \<noteq> None) rows)"
  using assms by (induction rows) (auto simp: joined_def opt_list_def split: option.splits)

definition repeated_key :: "jsstring list" where
  \<open>repeated_key = [js ''3 "a"'', js ''3 "a"'']\<close>

lemma repeated_key_pipeline:
  \<open>pipeline [repeated_key] = JoinStream [[(Fin 3, js ''"a"''), (Fin 3, js ''"a"'')]]\<close>
  by (simp add: pipeline_def repeated_key_def parse_file_Cons parse_file_Nil example_lines)

definition unsorted :: "jsstring list" where
  \<open>unsorted = [js ''5 "b"'', js ''3 "a"'']\<close>

lemma unsorted_pipeline:
  \<open>pipeline [unsorted] = JoinStream [[(Fin 5, js ''"b"''), (Fin 3, js ''"a"'')]]\<close>
  by (simp add: pipeline_def unsorted_def parse_file_Cons parse_file_Nil example_lines)

lemma unsorted_parse: \<open>parse_file unsorted = [(Fin 5, js ''"b"''), (Fin 3, js ''"a"'')]\<close>
  by (simp add: unsorted_def parse_file_Cons parse_file_Nil example_lines)

lemma repeated_key_parse: \<open>parse_file repeated_key = [(Fin 3, js ''"a"''), (Fin 3, js ''"a"'')]\<close>
  by (simp add: repeated_key_def parse_file_Cons parse_file_Nil example_lines)

lemma unsorted_eager:
  \<open>src_next (js_sources (run (\<lambda>n. True) (pipeline [unsorted]) [SourceReadable 0 2, FrameworkRead]) ! 0)
     = Some (Fin 3, js ''"a"'')\<close>
  \<open>js_pushed (run (\<lambda>n. True) (pipeline [unsorted]) [SourceReadable 0 2, FrameworkRead])
     = [(js ''"b"'', [Some (Fin 5, js ''"b"'')])]\<close>
  unfolding unsorted_pipeline by code_simp+

lemma repeated_key_eager:
  \<open>js_neof (run (\<lambda>n. True) (pipeline [repeated_key])
     [SourceReadable 0 2, FrameworkRead, SourceEnded 0]) = 1\<close>
  \<open>js_pushed (run (\<lambda>n. True) (pipeline [repeated_key])
     [SourceReadable 0 2, FrameworkRead, SourceEnded 0])
     = [(js ''"a"'', [Some (Fin 3, js ''"a"'')]), (js ''"a"'', [Some (Fin 3, js ''"a"'')])]\<close>
  unfolding repeated_key_pipeline by code_simp+

text \<open>
  C10.  In every state a run of the pipeline reaches, the engine has emitted the
  order-violation error for source \<open>i\<close> exactly when source \<open>i\<close> has delivered a record,
  the one the engine holds for it, whose key is strictly less than the key of the last
  record that source has in a pushed row.  So the first record of a source, delivered
  when the source has no record in any row, raises no error, and neither does a record
  whose key equals the key of the record before it.  No assertion of the engine fails.
  When every input is in order, repeated keys allowed, no run raises an error and every
  run can be continued to the end of the stream.  At the end of the stream the rows
  that hold a record of source \<open>j\<close> are, in their order, one for each record of input
  \<open>j\<close>: a repeated key has a row for each of its records.
\<close>

theorem order_check_iff:
  "(js_error (run push (pipeline files) evs) = Some (OutOfOrder i)
      \<longleftrightarrow> i < length files \<and> below_last (run push (pipeline files) evs) i)
   \<and> (joined i (js_pushed (run push (pipeline files) evs)) = []
        \<longrightarrow> js_error (run push (pipeline files) evs) \<noteq> Some (OutOfOrder i))
   \<and> (\<forall>d. src_next (js_sources (run push (pipeline files) evs) ! i) = Some d
          \<and> joined i (js_pushed (run push (pipeline files) evs)) \<noteq> []
          \<and> snd d = snd (last (joined i (js_pushed (run push (pipeline files) evs))))
        \<longrightarrow> js_error (run push (pipeline files) evs) \<noteq> Some (OutOfOrder i))
   \<and> js_error (run push (pipeline files) evs) \<noteq> Some AssertionError
   \<and> ((\<forall>f \<in> set files. sorted (map snd (parse_file f)))
        \<longrightarrow> js_error (run push (pipeline files) evs) = None
          \<and> (files \<noteq> [] \<longrightarrow> (\<exists>evs'. js_neof (run push (pipeline files) (evs @ evs')) = 1)))
   \<and> (js_neof (run push (pipeline files) evs) = 1
        \<longrightarrow> (\<forall>j < length files.
               map fst (filter (\<lambda>row. snd row ! j \<noteq> None) (js_pushed (run push (pipeline files) evs)))
                 = map snd (parse_file (files ! j))))"
proof -
  let ?ins = "map parse_file files"
  let ?st = "run push (pipeline files) evs"
  have inv: "engine_inv ?ins ?st" by (rule pipeline_inv)
  have iff: "js_error ?st = Some (OutOfOrder i) \<longleftrightarrow> i < length files \<and> below_last ?st i"
    using error_below_last[of push files evs i] below_last_error[of i files push evs] by blast
  have first: "joined i (js_pushed ?st) = [] \<longrightarrow> js_error ?st \<noteq> Some (OutOfOrder i)"
    using iff by (auto simp: below_last_def split: option.splits)
  have equal: "\<forall>d. src_next (js_sources ?st ! i) = Some d \<and> joined i (js_pushed ?st) \<noteq> []
          \<and> snd d = snd (last (joined i (js_pushed ?st)))
        \<longrightarrow> js_error ?st \<noteq> Some (OutOfOrder i)"
    using iff by (auto simp: below_last_def)
  have na: "js_error ?st \<noteq> Some AssertionError" using inv by (simp add: engine_inv_def)
  have srt: "js_error ?st = None
      \<and> (files \<noteq> [] \<longrightarrow> (\<exists>evs'. js_neof (run push (pipeline files) (evs @ evs')) = 1))"
    if s: "\<forall>f \<in> set files. sorted (map snd (parse_file f))"
  proof -
    from s have si: "sorted_inputs ?ins" by (simp add: sorted_inputs_def)
    from run_no_error[OF init_inv _ keys_ok_pipeline si, of push evs]
    have e: "js_error ?st = None" by (simp add: pipeline_def JoinStream_def)
    have "\<exists>evs'. js_neof (run push (pipeline files) (evs @ evs')) = 1" if "files \<noteq> []"
    proof -
      from inv that have "js_sources ?st \<noteq> []" by (auto simp: engine_inv_def data_inv_def)
      from completion_possible[OF inv this, of push] obtain evs' where
        "js_error (run push ?st evs') \<noteq> None \<or> js_neof (run push ?st evs') = 1" by blast
      moreover have "js_error (run push ?st evs') = None"
        by (rule run_no_error[OF inv e keys_ok_pipeline si])
      ultimately have "js_neof (run push (pipeline files) (evs @ evs')) = 1"
        by (simp add: run_append)
      then show ?thesis by blast
    qed
    with e show ?thesis by blast
  qed
  have fin: "\<forall>j < length files.
      map fst (filter (\<lambda>row. snd row ! j \<noteq> None) (js_pushed ?st)) = map snd (parse_file (files ! j))"
    if n: "js_neof ?st = 1"
  proof (intro allI impI)
    fix j assume j: "j < length files"
    have "\<forall>row \<in> set (js_pushed ?st). \<forall>x. snd row ! j = Some x \<longrightarrow> snd x = fst row"
    proof (intro ballI allI impI)
      fix row x assume r: "row \<in> set (js_pushed ?st)" and x: "snd row ! j = Some x"
      from pushed_in_merge[OF r] have "(fst row, snd row) \<in> set (merge_rows ?ins)" by simp
      from merge_rows_shape[OF this] j x show "snd x = fst row" by (cases x) simp
    qed
    from joined_keys[OF this] finished_joined[OF inv n, of j] j
    show "map fst (filter (\<lambda>row. snd row ! j \<noteq> None) (js_pushed ?st)) = map snd (parse_file (files ! j))"
      by simp
  qed
  show ?thesis
  proof (intro conjI)
    show "js_error ?st = Some (OutOfOrder i) \<longleftrightarrow> i < length files \<and> below_last ?st i"
      by (rule iff)
    show "joined i (js_pushed ?st) = [] \<longrightarrow> js_error ?st \<noteq> Some (OutOfOrder i)"
      by (rule first)
    show "\<forall>d. src_next (js_sources ?st ! i) = Some d \<and> joined i (js_pushed ?st) \<noteq> []
          \<and> snd d = snd (last (joined i (js_pushed ?st)))
        \<longrightarrow> js_error ?st \<noteq> Some (OutOfOrder i)"
      by (rule equal)
    show "js_error ?st \<noteq> Some AssertionError" by (rule na)
    show "(\<forall>f \<in> set files. sorted (map snd (parse_file f)))
        \<longrightarrow> js_error ?st = None
          \<and> (files \<noteq> [] \<longrightarrow> (\<exists>evs'. js_neof (run push (pipeline files) (evs @ evs')) = 1))"
      using srt by (rule impI)
    show "js_neof ?st = 1
        \<longrightarrow> (\<forall>j < length files.
               map fst (filter (\<lambda>row. snd row ! j \<noteq> None) (js_pushed ?st))
                 = map snd (parse_file (files ! j)))"
      using fin by (rule impI)
  qed
qed

lemma held_pipeline:
  \<open>pipeline [repeated_key, example_B] =
     JoinStream [[(Fin 3, js ''"a"''), (Fin 3, js ''"a"'')],
                 [(Fin 3, js ''"a"''), (Fin 0, js ''"b"''), (Fin 7, js ''"d"'')]]\<close>
  by (simp add: pipeline_def repeated_key_parse example_parse)

lemma first_held:
  \<open>src_next (js_sources (run (\<lambda>n. False) (pipeline [repeated_key, example_B])
      [SourceReadable 0 2, FrameworkRead]) ! 0) = Some (Fin 3, js ''"a"'')\<close>
  \<open>js_pushed (run (\<lambda>n. False) (pipeline [repeated_key, example_B])
      [SourceReadable 0 2, FrameworkRead]) = []\<close>
  unfolding held_pipeline by code_simp+

lemma equal_held:
  \<open>src_next (js_sources (run (\<lambda>n. False) (pipeline [repeated_key, example_B])
      [SourceReadable 0 2, SourceReadable 1 1, FrameworkRead, FrameworkRead]) ! 0)
     = Some (Fin 3, js ''"a"'')\<close>
  \<open>js_pushed (run (\<lambda>n. False) (pipeline [repeated_key, example_B])
      [SourceReadable 0 2, SourceReadable 1 1, FrameworkRead, FrameworkRead])
     = [(js ''"a"'', [Some (Fin 3, js ''"a"''), Some (Fin 3, js ''"a"'')])]\<close>
  unfolding held_pipeline by code_simp+

text \<open>
  A record below the key before it, with a consumer that always wants more; a file that
  repeats a key, with the second row of the same key; and, with a second source that
  keeps the engine waiting, the first record of a source and a record that repeats the
  key before it, as the engine holds them.
\<close>

theorem order_check_iff_witness:
  \<open>below_last (run (\<lambda>n. True) (pipeline [unsorted]) [SourceReadable 0 2, FrameworkRead]) 0
   \<and> js_error (run (\<lambda>n. True) (pipeline [unsorted]) [SourceReadable 0 2, FrameworkRead])
       = Some (OutOfOrder 0)
   \<and> sorted (map snd (parse_file repeated_key))
   \<and> js_error (run (\<lambda>n. True) (pipeline [repeated_key])
        [SourceReadable 0 2, FrameworkRead, SourceEnded 0]) = None
   \<and> js_neof (run (\<lambda>n. True) (pipeline [repeated_key])
        [SourceReadable 0 2, FrameworkRead, SourceEnded 0]) = 1
   \<and> js_pushed (run (\<lambda>n. True) (pipeline [repeated_key])
        [SourceReadable 0 2, FrameworkRead, SourceEnded 0])
       = [(js ''"a"'', [Some (Fin 3, js ''"a"'')]), (js ''"a"'', [Some (Fin 3, js ''"a"'')])]
   \<and> map fst (filter (\<lambda>row. snd row ! 0 \<noteq> None)
        (js_pushed (run (\<lambda>n. True) (pipeline [repeated_key])
           [SourceReadable 0 2, FrameworkRead, SourceEnded 0])))
       = [js ''"a"'', js ''"a"'']
   \<and> src_next (js_sources (run (\<lambda>n. False) (pipeline [repeated_key, example_B])
        [SourceReadable 0 2, FrameworkRead]) ! 0) = Some (Fin 3, js ''"a"'')
   \<and> joined 0 (js_pushed (run (\<lambda>n. False) (pipeline [repeated_key, example_B])
        [SourceReadable 0 2, FrameworkRead])) = []
   \<and> js_error (run (\<lambda>n. False) (pipeline [repeated_key, example_B])
        [SourceReadable 0 2, FrameworkRead]) \<noteq> Some (OutOfOrder 0)
   \<and> src_next (js_sources (run (\<lambda>n. False) (pipeline [repeated_key, example_B])
        [SourceReadable 0 2, SourceReadable 1 1, FrameworkRead, FrameworkRead]) ! 0)
       = Some (Fin 3, js ''"a"'')
   \<and> joined 0 (js_pushed (run (\<lambda>n. False) (pipeline [repeated_key, example_B])
        [SourceReadable 0 2, SourceReadable 1 1, FrameworkRead, FrameworkRead]))
       = [(Fin 3, js ''"a"'')]
   \<and> js_error (run (\<lambda>n. False) (pipeline [repeated_key, example_B])
        [SourceReadable 0 2, SourceReadable 1 1, FrameworkRead, FrameworkRead])
       \<noteq> Some (OutOfOrder 0)\<close>
proof -
  have b: "below_last (run (\<lambda>n. True) (pipeline [unsorted]) [SourceReadable 0 2, FrameworkRead]) 0"
    unfolding below_last_def unsorted_eager by code_simp
  have s: "\<forall>f \<in> set [repeated_key]. sorted (map snd (parse_file f))"
    by (simp add: repeated_key_parse)
  note u = order_check_iff[of "\<lambda>n. True" "[unsorted]" "[SourceReadable 0 2, FrameworkRead]" 0]
  note r = order_check_iff[of "\<lambda>n. True" "[repeated_key]"
      "[SourceReadable 0 2, FrameworkRead, SourceEnded 0]" 0]
  from u[THEN conjunct1] b
  have e: "js_error (run (\<lambda>n. True) (pipeline [unsorted]) [SourceReadable 0 2, FrameworkRead])
       = Some (OutOfOrder 0)" by simp
  from r[THEN conjunct2, THEN conjunct2, THEN conjunct2, THEN conjunct2, THEN conjunct1,
      THEN mp, OF s, THEN conjunct1]
  have n: "js_error (run (\<lambda>n. True) (pipeline [repeated_key])
        [SourceReadable 0 2, FrameworkRead, SourceEnded 0]) = None" .
  from r[THEN conjunct2, THEN conjunct2, THEN conjunct2, THEN conjunct2, THEN conjunct2,
      THEN mp, OF repeated_key_eager(1)]
  have "\<forall>j < length [repeated_key].
      map fst (filter (\<lambda>row. snd row ! j \<noteq> None)
        (js_pushed (run (\<lambda>n. True) (pipeline [repeated_key])
           [SourceReadable 0 2, FrameworkRead, SourceEnded 0])))
       = map snd (parse_file ([repeated_key] ! j))" .
  then have k: \<open>map fst (filter (\<lambda>row. snd row ! 0 \<noteq> None)
        (js_pushed (run (\<lambda>n. True) (pipeline [repeated_key])
           [SourceReadable 0 2, FrameworkRead, SourceEnded 0])))
       = [js ''"a"'', js ''"a"'']\<close> by (simp add: repeated_key_parse)
  note f = order_check_iff[of "\<lambda>n. False" "[repeated_key, example_B]"
      "[SourceReadable 0 2, FrameworkRead]" 0]
  note q = order_check_iff[of "\<lambda>n. False" "[repeated_key, example_B]"
      "[SourceReadable 0 2, SourceReadable 1 1, FrameworkRead, FrameworkRead]" 0]
  have fj: "joined 0 (js_pushed (run (\<lambda>n. False) (pipeline [repeated_key, example_B])
        [SourceReadable 0 2, FrameworkRead])) = []"
    unfolding first_held by (simp add: joined_def)
  have qj: \<open>joined 0 (js_pushed (run (\<lambda>n. False) (pipeline [repeated_key, example_B])
        [SourceReadable 0 2, SourceReadable 1 1, FrameworkRead, FrameworkRead]))
       = [(Fin 3, js ''"a"'')]\<close>
    unfolding equal_held by (simp add: joined_def opt_list_def)
  from f[THEN conjunct2, THEN conjunct1, THEN mp, OF fj]
  have fe: "js_error (run (\<lambda>n. False) (pipeline [repeated_key, example_B])
        [SourceReadable 0 2, FrameworkRead]) \<noteq> Some (OutOfOrder 0)" .
  from q[THEN conjunct2, THEN conjunct2, THEN conjunct1, THEN spec, of \<open>(Fin 3, js ''"a"'')\<close>]
    equal_held(1) qj
  have qe: "js_error (run (\<lambda>n. False) (pipeline [repeated_key, example_B])
        [SourceReadable 0 2, SourceReadable 1 1, FrameworkRead, FrameworkRead])
       \<noteq> Some (OutOfOrder 0)" by simp
  have s': "sorted (map snd (parse_file repeated_key))" using s by simp
  from b e s' n repeated_key_eager k first_held(1) fj fe equal_held(1) qj qe
  show ?thesis by (intro conjI)
qed

text \<open>
  C6.  Let an input have a record whose key is less than the key of the record before
  it; when the source delivers it, the record before it is the last one the source has
  in a pushed row.  Then no run signals the end of the stream, and every run can be
  continued until the engine emits the order-violation error.  No row ever holds the
  record out of order or a later record of that input, and the rows pushed are at every
  moment the first rows of the merge of the inputs, none out of turn.  In every run, a
  source that has delivered a record whose key is below the key of its last record in a
  pushed row has put the engine in the error state; and in the error state no event
  changes anything: no further row, no end of stream.
\<close>

theorem out_of_order_is_fatal:
  assumes "i < length files"
    and "Suc p < length (parse_file (files ! i))"
    and "snd (parse_file (files ! i) ! Suc p) < snd (parse_file (files ! i) ! p)"
  shows "js_neof (run push (pipeline files) evs) = 0
       \<and> length (joined i (js_pushed (run push (pipeline files) evs))) \<le> Suc p
       \<and> (\<exists>rest. merge_rows (map parse_file files)
                    = js_pushed (run push (pipeline files) evs) @ rest)
       \<and> (\<exists>evs' j. js_error (run push (pipeline files) (evs @ evs')) = Some (OutOfOrder j))
       \<and> (\<forall>j. j < length files \<and> below_last (run push (pipeline files) evs) j
              \<longrightarrow> js_error (run push (pipeline files) evs) = Some (OutOfOrder j))
       \<and> (js_error (run push (pipeline files) evs) \<noteq> None
            \<longrightarrow> (\<forall>evs'. run push (pipeline files) (evs @ evs') = run push (pipeline files) evs))"
proof -
  let ?st = "run push (pipeline files) evs"
  have t: "js_error ?st \<noteq> None \<longrightarrow> (\<forall>evs'. run push (pipeline files) (evs @ evs') = ?st)"
    by (simp add: run_append run_failed)
  have b: "\<forall>j. j < length files \<and> below_last ?st j \<longrightarrow> js_error ?st = Some (OutOfOrder j)"
    using below_last_error[of _ files push evs] by blast
  from unsorted_never_ends[OF assms, of push evs] joined_bound[OF assms, of push evs]
    pushed_prefix[OF pipeline_inv[of files push evs]]
    unsorted_fails[OF assms, of push evs] b t
  show ?thesis by (intro conjI)
qed

theorem out_of_order_is_fatal_witness:
  \<open>(0::nat) < length [unsorted]
   \<and> Suc 0 < length (parse_file ([unsorted] ! 0))
   \<and> snd (parse_file ([unsorted] ! 0) ! Suc 0) < snd (parse_file ([unsorted] ! 0) ! 0)
   \<and> js_error (run (\<lambda>n. True) (pipeline [unsorted]) [SourceReadable 0 2, FrameworkRead])
       = Some (OutOfOrder 0)
   \<and> js_pushed (run (\<lambda>n. True) (pipeline [unsorted]) [SourceReadable 0 2, FrameworkRead])
       = [(js ''"b"'', [Some (Fin 5, js ''"b"'')])]
   \<and> js_neof (run (\<lambda>n. True) (pipeline [unsorted]) [SourceReadable 0 2, FrameworkRead]) = 0
   \<and> run (\<lambda>n. True) (pipeline [unsorted])
        ([SourceReadable 0 2, FrameworkRead] @ [FrameworkRead, SourceEnded 0, FrameworkRead])
       = run (\<lambda>n. True) (pipeline [unsorted]) [SourceReadable 0 2, FrameworkRead]\<close>
proof -
  have i: "(0::nat) < length [unsorted]" by simp
  have p: "Suc 0 < length (parse_file ([unsorted] ! 0))" by (simp add: unsorted_parse)
  have k: "snd (parse_file ([unsorted] ! 0) ! Suc 0) < snd (parse_file ([unsorted] ! 0) ! 0)"
    by (simp add: unsorted_parse js_def)
  have b: "below_last (run (\<lambda>n. True) (pipeline [unsorted]) [SourceReadable 0 2, FrameworkRead]) 0"
    unfolding below_last_def unsorted_eager by code_simp
  note t = out_of_order_is_fatal[OF i p k, of "\<lambda>n. True" "[SourceReadable 0 2, FrameworkRead]"]
  note t3 = t[THEN conjunct2, THEN conjunct2, THEN conjunct2, THEN conjunct2]
  from t3[THEN conjunct1, THEN spec, of 0] b
  have e: "js_error (run (\<lambda>n. True) (pipeline [unsorted]) [SourceReadable 0 2, FrameworkRead])
       = Some (OutOfOrder 0)" by simp
  with t3[THEN conjunct2]
  have f: "run (\<lambda>n. True) (pipeline [unsorted])
        ([SourceReadable 0 2, FrameworkRead] @ [FrameworkRead, SourceEnded 0, FrameworkRead])
       = run (\<lambda>n. True) (pipeline [unsorted]) [SourceReadable 0 2, FrameworkRead]"
    by simp
  from i p k e unsorted_eager(2) t[THEN conjunct1] f show ?thesis by (intro conjI)
qed


definition eager :: "nat \<Rightarrow> bool" where
  "eager n = True"

lemma eager_run:
  \<open>js_pushed (run eager (pipeline [example_A, example_B]) example_events) =
     [(js ''"a"'', [Some (Fin 3, js ''"a"''), Some (Fin 3, js ''"a"'')]),
      (js ''"b"'', [Some (Fin 5, js ''"b"''), Some (Fin 0, js ''"b"'')]),
      (js ''"c"'', [Some (Fin 2, js ''"c"''), None]),
      (js ''"d"'', [None, Some (Fin 7, js ''"d"'')])]\<close>
  \<open>js_neof (run eager (pipeline [example_A, example_B]) example_events) = 1\<close>
proof -
  have e: "eager = (\<lambda>n. True)" by (simp add: fun_eq_iff eager_def)
  show
    \<open>js_pushed (run eager (pipeline [example_A, example_B]) example_events) =
     [(js ''"a"'', [Some (Fin 3, js ''"a"''), Some (Fin 3, js ''"a"'')]),
      (js ''"b"'', [Some (Fin 5, js ''"b"''), Some (Fin 0, js ''"b"'')]),
      (js ''"c"'', [Some (Fin 2, js ''"c"''), None]),
      (js ''"d"'', [None, Some (Fin 7, js ''"d"'')])]\<close>
    \<open>js_neof (run eager (pipeline [example_A, example_B]) example_events) = 1\<close>
    unfolding e by (simp_all add: example_run)
qed

lemma example_merge:
  \<open>merge_rows [[(Fin 3, js ''"a"''), (Fin 5, js ''"b"''), (Fin 2, js ''"c"'')],
               [(Fin 3, js ''"a"''), (Fin 0, js ''"b"''), (Fin 7, js ''"d"'')]] =
     [(js ''"a"'', [Some (Fin 3, js ''"a"''), Some (Fin 3, js ''"a"'')]),
      (js ''"b"'', [Some (Fin 5, js ''"b"''), Some (Fin 0, js ''"b"'')]),
      (js ''"c"'', [Some (Fin 2, js ''"c"''), None]),
      (js ''"d"'', [None, Some (Fin 7, js ''"d"'')])]\<close>
  by code_simp

lemma example_audit:
  \<open>AuditStream False
     [(js ''"a"'', [Some (Fin 3, js ''"a"''), Some (Fin 3, js ''"a"'')]),
      (js ''"b"'', [Some (Fin 5, js ''"b"''), Some (Fin 0, js ''"b"'')]),
      (js ''"c"'', [Some (Fin 2, js ''"c"''), None]),
      (js ''"d"'', [None, Some (Fin 7, js ''"d"'')])] =
     ([\<lparr>dirname = js ''"b"'', ndirents = JsonNumber 5, nreported = JsonNumber 0,
        status = ''error: count mismatch''\<rparr>,
       \<lparr>dirname = js ''"c"'', ndirents = JsonNumber 2, nreported = JsonNumber 0,
        status = ''error: count mismatch (no optimized count)''\<rparr>,
       \<lparr>dirname = js ''"d"'', ndirents = JsonNumber 0, nreported = JsonNumber 7,
        status = ''error: count mismatch (no entries)''\<rparr>], None)\<close>
  by (simp add: AuditStream_transform_def emitRow_def emitRowRaw_def strict_eq0_def
        loose_neq_def num_eq_def or0_def)

section \<open>The pipeline on the example\<close>

text \<open>
  C2, as stated, fails: on the two example files, with a consumer that always takes
  more, the diagnostic for key \<open>b\<close> has the status \<open>error: count mismatch\<close>, since both
  counts are present (5 and 0) and differ; it is not \<open>error: count mismatch (no
  optimized count)\<close>, which belongs to an absent reported count.
\<close>

theorem example_diagnostics_counterexample:
  \<open>fst (AuditStream False (js_pushed (run eager (pipeline [example_A, example_B]) example_events))) =
     [\<lparr>dirname = js ''"b"'', ndirents = JsonNumber 5, nreported = JsonNumber 0,
       status = ''error: count mismatch''\<rparr>,
      \<lparr>dirname = js ''"c"'', ndirents = JsonNumber 2, nreported = JsonNumber 0,
       status = ''error: count mismatch (no optimized count)''\<rparr>,
      \<lparr>dirname = js ''"d"'', ndirents = JsonNumber 0, nreported = JsonNumber 7,
       status = ''error: count mismatch (no entries)''\<rparr>]
   \<and> status (hd (fst (AuditStream False
         (js_pushed (run eager (pipeline [example_A, example_B]) example_events)))))
       \<noteq> ''error: count mismatch (no optimized count)''\<close>
  unfolding eager_run example_audit by simp

text \<open>
  C2, amended.  On the two example files, in non-verbose mode, every run that reaches
  the end of the stream has pushed exactly the rows whose diagnostics are: nothing for
  key \<open>a\<close>; for \<open>b\<close> 5 entries, 0 reported, \<open>error: count mismatch\<close>; for \<open>c\<close> 2 entries,
  0 reported, \<open>error: count mismatch (no optimized count)\<close>; for \<open>d\<close> 0 entries, 7
  reported, \<open>error: count mismatch (no entries)\<close>.
\<close>

theorem example_diagnostics:
  \<open>js_neof (run push (pipeline [example_A, example_B]) evs) = 1 \<longrightarrow>
   AuditStream False (js_pushed (run push (pipeline [example_A, example_B]) evs)) =
     ([\<lparr>dirname = js ''"b"'', ndirents = JsonNumber 5, nreported = JsonNumber 0,
        status = ''error: count mismatch''\<rparr>,
       \<lparr>dirname = js ''"c"'', ndirents = JsonNumber 2, nreported = JsonNumber 0,
        status = ''error: count mismatch (no optimized count)''\<rparr>,
       \<lparr>dirname = js ''"d"'', ndirents = JsonNumber 0, nreported = JsonNumber 7,
        status = ''error: count mismatch (no entries)''\<rparr>], None)\<close>
proof
  assume n: "js_neof (run push (pipeline [example_A, example_B]) evs) = 1"
  from finished_pushed[OF pipeline_inv n]
  have "js_pushed (run push (pipeline [example_A, example_B]) evs) =
          merge_rows (map parse_file [example_A, example_B])" .
  then show \<open>AuditStream False (js_pushed (run push (pipeline [example_A, example_B]) evs)) =
     ([\<lparr>dirname = js ''"b"'', ndirents = JsonNumber 5, nreported = JsonNumber 0,
        status = ''error: count mismatch''\<rparr>,
       \<lparr>dirname = js ''"c"'', ndirents = JsonNumber 2, nreported = JsonNumber 0,
        status = ''error: count mismatch (no optimized count)''\<rparr>,
       \<lparr>dirname = js ''"d"'', ndirents = JsonNumber 0, nreported = JsonNumber 7,
        status = ''error: count mismatch (no entries)''\<rparr>], None)\<close>
    by (simp only: list.map example_parse example_merge example_audit)
qed

theorem example_diagnostics_witness:
  \<open>js_neof (run (\<lambda>n. True) (pipeline [example_A, example_B]) example_events) = 1
   \<and> AuditStream False (js_pushed (run (\<lambda>n. True) (pipeline [example_A, example_B]) example_events)) =
     ([\<lparr>dirname = js ''"b"'', ndirents = JsonNumber 5, nreported = JsonNumber 0,
        status = ''error: count mismatch''\<rparr>,
       \<lparr>dirname = js ''"c"'', ndirents = JsonNumber 2, nreported = JsonNumber 0,
        status = ''error: count mismatch (no optimized count)''\<rparr>,
       \<lparr>dirname = js ''"d"'', ndirents = JsonNumber 0, nreported = JsonNumber 7,
        status = ''error: count mismatch (no entries)''\<rparr>], None)\<close>
proof -
  have n: "js_neof (run (\<lambda>n. True) (pipeline [example_A, example_B]) example_events) = 1"
    by (simp add: example_run)
  from example_diagnostics[of "\<lambda>n. True" example_events] n show ?thesis by blast
qed

lemma line_minus5: \<open>SplitStream_transform (js ''-5 "a"'') = Inr (Fin (- 5), js ''"a"'')\<close>
  by code_simp

lemma line_007: \<open>SplitStream_transform (js ''007 "a"'') = Inr (Fin 7, js ''"a"'')\<close>
  by code_simp

lemma line_5point0: \<open>SplitStream_transform (js ''5.0 "a"'') = Inr (Fin 5, js ''"a"'')\<close>
  by code_simp

lemma line_5_bogus: \<open>SplitStream_transform (js ''5 bogus'') = Inl ''invalid JSON''\<close>
  by code_simp

lemma line_5point5: \<open>SplitStream_transform (js ''5.5 "a"'') = Inl ''not an integer''\<close>
  by code_simp

lemma line_5x: \<open>SplitStream_transform (js ''5x "a"'') = Inl ''not an integer''\<close>
  by code_simp


section \<open>The record parser\<close>

text \<open>
  What holds of the warnings.  A line the transform rejects, for whatever reason, gives
  one warning and no record, a line it accepts gives its record and no warning, and
  either way the remaining lines are processed: the result of a file is the result of
  its lines one after the other.
\<close>

lemma rejected_line_warns_once:
  "SplitStream_transform line = Inl kind \<Longrightarrow>
   split_line st line = st\<lparr>nwarnings := nwarnings st + 1\<rparr>"
  by (simp add: split_line_def streamWarn_def)

lemma accepted_line_pushes:
  "SplitStream_transform line = Inr d \<Longrightarrow>
   split_line st line = st\<lparr>pushed := pushed st @ [d]\<rparr>"
  by (simp add: split_line_def)

lemma warning_does_not_stop:
  "split_lines st (before @ line # after) =
     split_lines (split_line (split_lines st before) line) after"
  by (simp add: split_lines_def)

lemma bogus_line_counts_once:
  \<open>split_line st (js ''5 bogus'') = st\<lparr>nwarnings := nwarnings st + 1\<rparr>\<close>
  by (rule rejected_line_warns_once[OF line_5_bogus])

text \<open>
  C3.  The check \<^verbatim>\<open>parts[0].toString() != count\<close> compares numbers, not texts, so a
  first field with a sign, a leading zero or a zero fraction is accepted: each of these
  three lines gives a record and no warning.
\<close>

theorem noncanonical_integer_accepted:
  \<open>SplitStream_transform (js ''-5 "a"'') = Inr (Fin (- 5), js ''"a"'')
   \<and> SplitStream_transform (js ''007 "a"'') = Inr (Fin 7, js ''"a"'')
   \<and> SplitStream_transform (js ''5.0 "a"'') = Inr (Fin 5, js ''"a"'')\<close>
  by (simp add: line_minus5 line_007 line_5point0)

text \<open>
  C8.  The same defect seen from the warnings: a file of the one malformed line
  \<^verbatim>\<open>-5 "a"\<close> ends with no warning counted and one record pushed.
\<close>

theorem malformed_line_without_warning:
  \<open>split_lines \<lparr>nwarnings = 0, pushed = []\<rparr> [js ''-5 "a"''] =
     \<lparr>nwarnings = 0, pushed = [(Fin (- 5), js ''"a"'')]\<rparr>\<close>
  by (simp add: split_lines_def split_line_def line_minus5)

section \<open>The fields of a diagnostic\<close>

subsection \<open>Counts beyond the range of a double\<close>





















subsection \<open>The fields\<close>





end
